theory Spec2Isabelle
  imports Complex_Main "HOL-Library.Word" "HOL-Library.Multiset" "HOL-Library.Log_Nat"
begin

section \<open>Conventions of the embedding\<close>

text \<open>
  The Go sources are embedded function by function.

  \<^item> A \<open>float32\<close> or \<open>float64\<close> is a value of the type \<open>float\<close> below: NaN, an infinity or a
    real.  Every arithmetic operation rounds its exact result to the format, to nearest with
    ties to even, as the code that the Go compiler emits for amd64 does; comparisons with
    NaN are false.  The \<open>float64\<close>s that the sources only compare with each other (the draws
    of the random source and the constant \<open>Ml\<close>, written as the quotient that the source
    rounds) are reals.
  \<^item> A Go \<open>int\<close> is an \<open>int\<close> (the callers pass values of 64 bits), a \<open>nat\<close> for the
    level counters (which only count up from 0), and a \<open>64 word\<close> in \<open>List\<close>, whose arithmetic on
    caller-supplied values can wrap.
  \<^item> A run-time panic (nil dereference, slice bounds, \<open>make\<close> with a negative capacity,
    \<open>Intn\<close> of a non-positive bound) is the value \<open>None\<close> of an \<open>option\<close> type; an \<open>error\<close>
    returned by the source is a value of the datatype \<open>error\<close>.
  \<^item> A Go map is a finite association list read through \<open>map_of\<close>; a \<open>map[string]bool\<close> used as
    a set is a list read through \<open>set\<close>.  The order in which \<open>range\<close> walks a map is not
    fixed by the language, so every function that ranges over a map takes an oracle
    \<open>it :: nat \<Rightarrow> nat\<close> from which the order is drawn.
  \<^item> \<open>*HNSWNode\<close> pointers are addresses into an explicit store.
\<close>

section \<open>Go's floating-point numbers\<close>

text \<open>
  The values of a \<open>float32\<close> and of a \<open>float64\<close> (IEEE 754 binary32 and binary64): NaN,
  the two infinities, and the finite numbers of the format, which are reals.  The sign of
  a zero is not kept: the sources compare, add and multiply zeros, where the sign does not
  show, and the divisor of their one division is a product of two square roots.  A
  \<open>score\<close> is a value other than NaN; the scores are linearly ordered.
\<close>

datatype score = NegInf | Fin real | PosInf

instantiation score :: linorder
begin

fun less_eq_score :: "score \<Rightarrow> score \<Rightarrow> bool" where
  "less_eq_score NegInf y = True"
| "less_eq_score (Fin x) NegInf = False"
| "less_eq_score (Fin x) (Fin y) = (x \<le> y)"
| "less_eq_score (Fin x) PosInf = True"
| "less_eq_score PosInf NegInf = False"
| "less_eq_score PosInf (Fin y) = False"
| "less_eq_score PosInf PosInf = True"

definition less_score :: "score \<Rightarrow> score \<Rightarrow> bool" where
  "less_score a b = (a \<le> b \<and> \<not> b \<le> a)"

instance
proof
  fix x y z :: score
  show "(x < y) = (x \<le> y \<and> \<not> y \<le> x)"
    by (simp add: less_score_def)
  show "x \<le> x"
    by (cases x) simp_all
  show "x \<le> y \<Longrightarrow> y \<le> z \<Longrightarrow> x \<le> z"
    by (cases x; cases y; cases z) simp_all
  show "x \<le> y \<Longrightarrow> y \<le> x \<Longrightarrow> x = y"
    by (cases x; cases y) simp_all
  show "x \<le> y \<or> y \<le> x"
    by (cases x; cases y) auto
qed

end

instantiation score :: uminus
begin

fun uminus_score :: "score \<Rightarrow> score" where
  "uminus_score NegInf = PosInf"
| "uminus_score (Fin x) = Fin (- x)"
| "uminus_score PosInf = NegInf"

instance ..

end

datatype float = NaN | Num score

type_synonym float32 = float
type_synonym float64 = float

text \<open>
  Go's comparisons \<open><\<close> and \<open><=\<close> (and \<open>>\<close>, \<open>>=\<close>, which are these read from the right) are
  false when an operand is NaN.  The unary minus of NaN is NaN.
\<close>

instantiation float :: ord
begin

fun less_eq_float :: "float \<Rightarrow> float \<Rightarrow> bool" where
  "less_eq_float (Num a) (Num b) = (a \<le> b)"
| "less_eq_float _ _ = False"

fun less_float :: "float \<Rightarrow> float \<Rightarrow> bool" where
  "less_float (Num a) (Num b) = (a < b)"
| "less_float _ _ = False"

instance ..

end

instantiation float :: uminus
begin

fun uminus_float :: "float \<Rightarrow> float" where
  "uminus_float NaN = NaN"
| "uminus_float (Num a) = Num (- a)"

instance ..

end

text \<open>
  Rounding.  \<open>rne x\<close> is the integer nearest to \<open>x\<close>, the even one where two are equally
  near.  \<open>ilog2 x\<close> is the exponent of \<open>x > 0\<close>, the \<open>e\<close> with \<open>2 ^ e \<le> x < 2 ^ (e + 1)\<close>, read
  off the number of bits of \<open>\<lfloor>x\<rfloor>\<close>, or of \<open>\<lceil>1 / x\<rceil> - 1\<close> for \<open>x < 1\<close>.  \<open>round_to p emin emax\<close>
  rounds a real to the format with \<open>p\<close> bits of precision and the exponents \<open>emin\<close> to
  \<open>emax\<close>: to the nearest multiple of the unit in the last place, which is
  \<open>2 ^ (e - (p - 1))\<close> for a number of exponent \<open>e\<close> and \<open>2 ^ (emin - (p - 1))\<close> for the
  subnormal numbers, ties to the even multiple; a result whose exponent is above \<open>emax\<close>
  is an infinity.
\<close>

definition rne :: "real \<Rightarrow> int" where
  "rne x =
     (let n = \<lfloor>x\<rfloor>; d = x - real_of_int n
      in if d < 1 / 2 then n else if 1 / 2 < d then n + 1 else if even n then n else n + 1)"

definition ilog2 :: "real \<Rightarrow> int" where
  "ilog2 x = (if 1 \<le> x then bitlen \<lfloor>x\<rfloor> - 1 else - bitlen (\<lceil>1 / x\<rceil> - 1))"

definition pow2 :: "int \<Rightarrow> real" where
  "pow2 e = (if 0 \<le> e then 2 ^ nat e else 1 / 2 ^ nat (- e))"

definition round_to :: "nat \<Rightarrow> int \<Rightarrow> int \<Rightarrow> real \<Rightarrow> float" where
  "round_to p emin emax x =
     (if x = 0 then Num (Fin 0)
      else let u = pow2 (max (ilog2 \<bar>x\<bar>) emin - (int p - 1));
               y = real_of_int (rne (\<bar>x\<bar> / u)) * u
           in if y \<noteq> 0 \<and> emax < ilog2 y then Num (if x < 0 then NegInf else PosInf)
              else Num (Fin (if x < 0 then - y else y)))"

definition round32 :: "real \<Rightarrow> float32" where
  "round32 = round_to 24 (- 126) 127"

definition round64 :: "real \<Rightarrow> float64" where
  "round64 = round_to 53 (- 1022) 1023"

text \<open>
  Arithmetic: the exact result, rounded by \<open>rnd\<close>.  With an infinity among the operands
  the result is the infinity that the signs give, and NaN for \<open>\<infinity> - \<infinity>\<close>, \<open>0 * \<infinity>\<close> and
  \<open>\<infinity> / \<infinity>\<close>; \<open>0 / 0\<close> is NaN and \<open>x / 0\<close> an infinity.  An operator of the source on
  \<open>float32\<close> operands rounds to \<open>float32\<close> (\<open>add32\<close>, \<open>sub32\<close>, \<open>mul32\<close>, \<open>div32\<close>), one on
  \<open>float64\<close> operands to \<open>float64\<close> (\<open>mul64\<close>).  Every operation is rounded by itself: the
  compiler fuses no multiplication with an addition for amd64 at its default level.
\<close>

fun float_add :: "(real \<Rightarrow> float) \<Rightarrow> float \<Rightarrow> float \<Rightarrow> float" where
  "float_add rnd (Num (Fin x)) (Num (Fin y)) = rnd (x + y)"
| "float_add rnd (Num (Fin x)) (Num b) = Num b"
| "float_add rnd (Num a) (Num (Fin y)) = Num a"
| "float_add rnd (Num a) (Num b) = (if a = b then Num a else NaN)"
| "float_add rnd _ _ = NaN"

fun float_mul :: "(real \<Rightarrow> float) \<Rightarrow> float \<Rightarrow> float \<Rightarrow> float" where
  "float_mul rnd (Num (Fin x)) (Num (Fin y)) = rnd (x * y)"
| "float_mul rnd (Num (Fin x)) (Num b) = (if x = 0 then NaN else Num (if x < 0 then - b else b))"
| "float_mul rnd (Num a) (Num (Fin y)) = (if y = 0 then NaN else Num (if y < 0 then - a else a))"
| "float_mul rnd (Num a) (Num b) = Num (if a = b then PosInf else NegInf)"
| "float_mul rnd _ _ = NaN"

fun float_div :: "(real \<Rightarrow> float) \<Rightarrow> float \<Rightarrow> float \<Rightarrow> float" where
  "float_div rnd (Num (Fin x)) (Num (Fin y)) =
     (if y \<noteq> 0 then rnd (x / y)
      else if x = 0 then NaN else Num (if x < 0 then NegInf else PosInf))"
| "float_div rnd (Num (Fin x)) (Num b) = Num (Fin 0)"
| "float_div rnd (Num a) (Num (Fin y)) = Num (if y < 0 then - a else a)"
| "float_div rnd _ _ = NaN"

definition add32 :: "float32 \<Rightarrow> float32 \<Rightarrow> float32" where
  "add32 = float_add round32"

definition sub32 :: "float32 \<Rightarrow> float32 \<Rightarrow> float32" where
  "sub32 a b = float_add round32 a (- b)"

definition mul32 :: "float32 \<Rightarrow> float32 \<Rightarrow> float32" where
  "mul32 = float_mul round32"

definition div32 :: "float32 \<Rightarrow> float32 \<Rightarrow> float32" where
  "div32 = float_div round32"

definition mul64 :: "float64 \<Rightarrow> float64 \<Rightarrow> float64" where
  "mul64 = float_mul round64"

text \<open>
  Conversions.  \<open>float32(f)\<close> of a \<open>float64\<close> rounds; \<open>float64(f)\<close> of a \<open>float32\<close> is exact;
  \<open>float64(k)\<close> of an \<open>int\<close> rounds.  \<open>int(f)\<close> truncates toward zero; where the truncated
  value is no \<open>int\<close> of 64 bits, and for NaN, the language leaves the result to the
  implementation, and amd64 delivers \<open>- 2 ^ 63\<close>.
\<close>

fun to_float32 :: "float64 \<Rightarrow> float32" where
  "to_float32 (Num (Fin x)) = round32 x"
| "to_float32 f = f"

definition to_float64 :: "float32 \<Rightarrow> float64" where
  "to_float64 f = f"

definition int_to_float64 :: "int \<Rightarrow> float64" where
  "int_to_float64 k = round64 (real_of_int k)"

definition go_int :: "float64 \<Rightarrow> int" where
  "go_int f =
     (case f of
        Num (Fin x) \<Rightarrow>
          let n = (if 0 \<le> x then \<lfloor>x\<rfloor> else \<lceil>x\<rceil>)
          in if - (2 ^ 63) \<le> n \<and> n < 2 ^ 63 then n else - (2 ^ 63)
      | _ \<Rightarrow> - (2 ^ 63))"

text \<open>
  The functions of package \<open>math\<close> that the sources call.  \<open>math.Sqrt\<close> is the correctly
  rounded square root.  \<open>sqrt\<close> on the reals is not computable; the library's unusable code
  equation for \<open>root\<close> is withdrawn, so that evaluation inside the logic leaves a \<open>sqrt\<close> as
  it stands.
\<close>

declare root_def [code del]

fun math_Sqrt :: "float64 \<Rightarrow> float64" where
  "math_Sqrt (Num (Fin x)) = (if x < 0 then NaN else round64 (sqrt x))"
| "math_Sqrt (Num PosInf) = Num PosInf"
| "math_Sqrt _ = NaN"

fun math_Abs :: "float64 \<Rightarrow> float64" where
  "math_Abs (Num (Fin x)) = Num (Fin \<bar>x\<bar>)"
| "math_Abs (Num _) = Num PosInf"
| "math_Abs NaN = NaN"

definition math_Max :: "float64 \<Rightarrow> float64 \<Rightarrow> float64" where
  "math_Max x y =
     (if x = Num PosInf \<or> y = Num PosInf then Num PosInf
      else case (x, y) of
             (Num a, Num b) \<Rightarrow> Num (max a b)
           | _ \<Rightarrow> NaN)"

definition math_Inf :: "int \<Rightarrow> float64" where
  "math_Inf sign = Num (if 0 \<le> sign then PosInf else NegInf)"

section \<open>distance.go: the ef heuristic\<close>

text \<open>\<open>k\<close> and \<open>baseEf\<close> are \<open>int\<close>s of 64 bits; the constant \<open>1.5\<close> is a \<open>float64\<close>.\<close>

definition CalculateOptimalEf :: "int \<Rightarrow> int \<Rightarrow> int" where
  "CalculateOptimalEf k baseEf =
     (let minEf = k in
      if baseEf > minEf
      then go_int (math_Max (int_to_float64 baseEf) (mul64 (int_to_float64 k) (Num (Fin 1.5))))
      else go_int (mul64 (int_to_float64 k) (Num (Fin 1.5))))"

section \<open>types.go: data model\<close>

text \<open>
  \<open>DistanceMetric\<close> is an \<open>int\<close> with four named values; every other value is
  \<open>UnknownMetric\<close>, which \<open>CalculateDistance\<close> sends to its \<open>default\<close> branch.
\<close>

datatype DistanceMetric =
  CosineSimilarity | EuclideanDistance | DotProduct | ManhattanDistance | UnknownMetric

text \<open>
  \<open>map[string]interface{}\<close>: the values are opaque to the core; a nil map is \<open>None\<close>.
\<close>

typedecl json

type_synonym tags = "(string \<times> json) list option"

type_synonym addr = nat

text \<open>
  \<open>HNSWNode\<close>.  \<open>Connections\<close> is a slice of \<open>map[string]bool\<close>, one per layer; every entry
  the source stores is \<open>true\<close>, so a layer is the list of its keys.  \<open>Level\<close> is a \<open>nat\<close>.
\<close>

record HNSWNode =
  ID :: string
  Vector :: "float32 list"
  Connections :: "string list list"
  Level :: nat
  Metadata :: tags

text \<open>
  \<open>PriorityQueueItem\<close>.  The field \<open>Index\<close> is written by \<open>Swap\<close>, \<open>Push\<close> and \<open>Pop\<close> and
  read nowhere; it is left out.
\<close>

record PriorityQueueItem =
  Item_ID :: string
  Distance :: float32

type_synonym PriorityQueue = "PriorityQueueItem list"

record SearchResult =
  Result_ID :: string
  Score :: float32

text \<open>\<open>VectorMetadata\<close>: \<open>CreatedAt\<close> is the reading of the clock (\<open>time.Now()\<close>).\<close>

record VectorMetadata =
  CreatedAt :: nat
  Tags :: tags

text \<open>The request structs \<open>Vector\<close>, \<open>InsertRequest\<close> and \<open>SearchRequest\<close>.\<close>

record Vector =
  Vector_ID :: string
  Data :: "float32 list"

record InsertRequest =
  Req_Vector :: Vector
  Req_Metadata :: tags

record SearchRequest =
  Query :: "float32 list"
  K :: int
  Req_DistanceMetric :: DistanceMetric

section \<open>errors.go\<close>

text \<open>
  The error values of the core.  \<open>Errorf\<close> is an untyped \<open>fmt.Errorf\<close> error with its
  message; \<open>DatabaseError\<close> carries the operation and the wrapped cause.
\<close>

datatype error =
  DimensionMismatchError int int
| VectorNotFoundError string
| InvalidConfigError string
| DatabaseError string error
| PersistenceError string string
| Errorf string

section \<open>types.go: configuration\<close>

record HNSWConfig =
  M :: int
  EfConstruction :: int
  EfSearch :: int
  MaxM :: int
  MaxM0 :: int
  Ml :: real

definition DefaultHNSWConfig :: HNSWConfig where
  "DefaultHNSWConfig =
     \<lparr> M = 16, EfConstruction = 200, EfSearch = 50, MaxM = 16, MaxM0 = 32, Ml = 1.0 / 2.303 \<rparr>"

section \<open>The random source\<close>

text \<open>
  \<open>h.rng\<close> is a \<open>*rand.Rand\<close>.  Its state is modelled by the results it is going to deliver:
  the stream of \<open>Float64()\<close> results and the stream of raw integers from which \<open>Intn(n)\<close>
  takes its result modulo \<open>n\<close>.  \<open>Intn\<close> panics when \<open>n \<le> 0\<close>.
\<close>

record Rand =
  float64s :: "nat \<Rightarrow> real"
  intns :: "nat \<Rightarrow> nat"

definition Float64 :: "Rand \<Rightarrow> real \<times> Rand" where
  "Float64 r = (float64s r 0, r\<lparr> float64s := (\<lambda>n. float64s r (Suc n)) \<rparr>)"

definition Intn :: "Rand \<Rightarrow> int \<Rightarrow> (nat \<times> Rand) option" where
  "Intn r n =
     (if n \<le> 0 then None
      else Some (intns r 0 mod nat n, r\<lparr> intns := (\<lambda>k. intns r (Suc k)) \<rparr>))"

section \<open>distance.go: the distance kernel\<close>

text \<open>
  The kernels on \<open>[]float32\<close>.  Their loops run over the indices of \<open>a\<close>, with \<open>len(a) =
  len(b)\<close>, and accumulate from the left, each operation rounded to \<open>float32\<close>.  The test
  \<open>normA == 0\<close> is false for NaN, as the equality with the value \<open>Num (Fin 0)\<close> is.
\<close>

definition CosineSimilarityScore :: "float32 list \<Rightarrow> float32 list \<Rightarrow> float32" where
  "CosineSimilarityScore a b =
     (if length a \<noteq> length b then Num (Fin 0)
      else
        case foldl (\<lambda>(dotProduct, normA, normB) (x, y).
                      (add32 dotProduct (mul32 x y), add32 normA (mul32 x x), add32 normB (mul32 y y)))
                   (Num (Fin 0), Num (Fin 0), Num (Fin 0)) (zip a b) of
          (dotProduct, normA, normB) \<Rightarrow>
            if normA = Num (Fin 0) \<or> normB = Num (Fin 0) then Num (Fin 0)
            else div32 dotProduct
                   (mul32 (to_float32 (math_Sqrt (to_float64 normA)))
                          (to_float32 (math_Sqrt (to_float64 normB)))))"

definition EuclideanDistanceScore :: "float32 list \<Rightarrow> float32 list \<Rightarrow> float32" where
  "EuclideanDistanceScore a b =
     (if length a \<noteq> length b then to_float32 (math_Inf 1)
      else
        let sum = foldl (\<lambda>sum (x, y). let diff = sub32 x y in add32 sum (mul32 diff diff))
                    (Num (Fin 0)) (zip a b)
        in to_float32 (math_Sqrt (to_float64 sum)))"

definition DotProductScore :: "float32 list \<Rightarrow> float32 list \<Rightarrow> float32" where
  "DotProductScore a b =
     (if length a \<noteq> length b then Num (Fin 0)
      else foldl (\<lambda>sum (x, y). add32 sum (mul32 x y)) (Num (Fin 0)) (zip a b))"

definition ManhattanDistanceScore :: "float32 list \<Rightarrow> float32 list \<Rightarrow> float32" where
  "ManhattanDistanceScore a b =
     (if length a \<noteq> length b then to_float32 (math_Inf 1)
      else foldl (\<lambda>sum (x, y). add32 sum (to_float32 (math_Abs (to_float64 (sub32 x y)))))
             (Num (Fin 0)) (zip a b))"

fun CalculateDistance :: "float32 list \<Rightarrow> float32 list \<Rightarrow> DistanceMetric \<Rightarrow> float32" where
  "CalculateDistance a b CosineSimilarity = sub32 (Num (Fin 1.0)) (CosineSimilarityScore a b)"
| "CalculateDistance a b EuclideanDistance = EuclideanDistanceScore a b"
| "CalculateDistance a b DotProduct = - DotProductScore a b"
| "CalculateDistance a b ManhattanDistance = ManhattanDistanceScore a b"
| "CalculateDistance a b UnknownMetric = EuclideanDistanceScore a b"

section \<open>Go maps\<close>

text \<open>
  A \<open>map[string]T\<close> is an association list read through \<open>map_of\<close>.  An assignment
  \<open>m[k] = v\<close> is \<open>map_put\<close>, \<open>delete(m, k)\<close> is \<open>map_delete\<close>, the keys are \<open>map_keys\<close>.
\<close>

definition map_put :: "'k \<Rightarrow> 'v \<Rightarrow> ('k \<times> 'v) list \<Rightarrow> ('k \<times> 'v) list" where
  "map_put k v m = (k, v) # filter (\<lambda>p. fst p \<noteq> k) m"

definition map_delete :: "'k \<Rightarrow> ('k \<times> 'v) list \<Rightarrow> ('k \<times> 'v) list" where
  "map_delete k m = filter (\<lambda>p. fst p \<noteq> k) m"

definition map_keys :: "('k \<times> 'v) list \<Rightarrow> 'k list" where
  "map_keys m = remdups (map fst m)"

text \<open>
  A \<open>map[string]bool\<close> whose entries are all \<open>true\<close> is the list of its keys:
  \<open>s[k] = true\<close> is \<open>set_add\<close>, \<open>delete(s, k)\<close> is \<open>removeAll\<close>, \<open>len(s)\<close> is \<open>set_len\<close>.
\<close>

definition set_add :: "'k \<Rightarrow> 'k list \<Rightarrow> 'k list" where
  "set_add k s = (if k \<in> set s then s else s @ [k])"

definition set_len :: "'k list \<Rightarrow> int" where
  "set_len s = int (length (remdups s))"

text \<open>
  The order of a \<open>range\<close> over a map: the oracle \<open>it\<close> picks, one after the other, which of
  the keys not yet visited comes next, so every order of the keys is the order of some
  oracle.  A loop over \<open>n\<close> keys uses up \<open>n\<close> picks of the oracle (\<open>it_drop\<close>).
\<close>

lemma pick_shrinks:
  "xs \<noteq> [] \<Longrightarrow> k mod length xs + (length xs - Suc (k mod length xs)) < length xs"
proof -
  assume "xs \<noteq> []"
  then have "k mod length xs < length xs" by simp
  then show ?thesis by linarith
qed

function go_range :: "(nat \<Rightarrow> nat) \<Rightarrow> 'a list \<Rightarrow> 'a list" where
  "go_range it xs =
     (if xs = [] then []
      else let i = it 0 mod length xs
           in xs ! i # go_range (\<lambda>n. it (Suc n)) (take i xs @ drop (Suc i) xs))"
  by pat_completeness auto
termination
  by (relation "measure (\<lambda>(it, xs). length xs)") (auto simp: pick_shrinks)

declare go_range.simps [simp del]

definition it_drop :: "nat \<Rightarrow> (nat \<Rightarrow> nat) \<Rightarrow> (nat \<Rightarrow> nat)" where
  "it_drop n it = (\<lambda>k. it (k + n))"

section \<open>container/heap on a \<open>PriorityQueue\<close>\<close>

text \<open>
  \<open>PriorityQueue\<close> implements \<open>heap.Interface\<close> with \<open>Less(i, j) = pq[i].Distance <
  pq[j].Distance\<close>; \<open>heap.Push\<close> and \<open>heap.Pop\<close> of the standard library are its \<open>up\<close> and
  \<open>down\<close> on the slice.  \<open>heap.Pop\<close> on an empty queue panics (\<open>Swap(0, -1)\<close>).
  \<open>heap.Init\<close> is called on empty queues only, where it does nothing.
\<close>

definition Less :: "PriorityQueue \<Rightarrow> nat \<Rightarrow> nat \<Rightarrow> bool" where
  "Less pq i j = (Distance (pq ! i) < Distance (pq ! j))"

definition Swap :: "PriorityQueue \<Rightarrow> nat \<Rightarrow> nat \<Rightarrow> PriorityQueue" where
  "Swap pq i j = pq[i := pq ! j, j := pq ! i]"

function up :: "PriorityQueue \<Rightarrow> nat \<Rightarrow> PriorityQueue" where
  "up h j =
     (let i = (j - 1) div 2 \<comment> \<open>parent\<close>
      in if i = j \<or> \<not> Less h j i then h else up (Swap h i j) i)"
  by pat_completeness auto
termination
  by (relation "measure (\<lambda>(h, j). j)") auto

declare up.simps [simp del]

function down :: "PriorityQueue \<Rightarrow> nat \<Rightarrow> nat \<Rightarrow> PriorityQueue" where
  "down h i n =
     (let j1 = 2 * i + 1
      in if j1 \<ge> n then h
         else let j = (if j1 + 1 < n \<and> Less h (j1 + 1) j1 then j1 + 1 else j1)
              in if \<not> Less h j i then h else down (Swap h i j) j n)"
  by pat_completeness auto
termination
  by (relation "measure (\<lambda>(h, i, n). n - i)") auto

declare down.simps [simp del]

definition heap_Push :: "PriorityQueue \<Rightarrow> PriorityQueueItem \<Rightarrow> PriorityQueue" where
  "heap_Push h x = up (h @ [x]) (length h)"

definition heap_Pop :: "PriorityQueue \<Rightarrow> (PriorityQueueItem \<times> PriorityQueue) option" where
  "heap_Pop h =
     (if h = [] then None
      else let n = length h - 1;
               h' = down (Swap h 0 n) 0 n
           in Some (last h', butlast h'))"

lemma length_Swap [simp]: "length (Swap pq i j) = length pq"
  by (simp add: Swap_def)

lemma length_up [simp]: "length (up h j) = length h"
proof (induction h j rule: up.induct)
  case (1 h j)
  then show ?case
    by (subst up.simps) (simp add: Let_def)
qed

lemma length_down [simp]: "length (down h i n) = length h"
proof (induction h i n rule: down.induct)
  case (1 h i n)
  then show ?case
    by (subst down.simps) (simp add: Let_def)
qed

lemma length_heap_Push [simp]: "length (heap_Push h x) = Suc (length h)"
  by (simp add: heap_Push_def)

lemma heap_Pop_length:
  "heap_Pop h = Some (x, h') \<Longrightarrow> h \<noteq> [] \<and> length h' = length h - 1"
  by (auto simp: heap_Pop_def Let_def split: if_splits)

section \<open>hnsw.go: the index\<close>

text \<open>
  \<open>HNSWIndex\<close>.  \<open>store\<close> holds the node objects the pointers refer to; \<open>nodes\<close> is the map
  from id to pointer, \<open>entryPoint\<close> a pointer or nil.  The mutex is left out: the operations
  are modelled one at a time, as they run under the exclusive lock.
\<close>

record HNSWIndex =
  store :: "addr \<Rightarrow> HNSWNode"
  nodes :: "(string \<times> addr) list"
  entryPoint :: "addr option"
  config :: HNSWConfig
  dimensions :: int
  distanceFunc :: DistanceMetric
  maxLevel :: nat
  levelMultiplier :: real
  rng :: Rand

definition NewHNSWIndex :: "HNSWConfig \<Rightarrow> int \<Rightarrow> DistanceMetric \<Rightarrow> Rand \<Rightarrow> HNSWIndex" where
  "NewHNSWIndex cfg dims metric r =
     \<lparr> store = (\<lambda>_. \<lparr> ID = [], Vector = [], Connections = [], Level = 0, Metadata = None \<rparr>),
       nodes = [], entryPoint = None, config = cfg, dimensions = dims,
       distanceFunc = metric, maxLevel = 0, levelMultiplier = Ml cfg, rng = r \<rparr>"

text \<open>
  A new node object gets an address that no pointer of the index holds: one past the
  largest address in \<open>nodes\<close> and \<open>entryPoint\<close>.
\<close>

definition new_addr :: "HNSWIndex \<Rightarrow> addr" where
  "new_addr h =
     Suc (fold max (map snd (nodes h)) (case entryPoint h of None \<Rightarrow> 0 | Some e \<Rightarrow> e))"

subsection \<open>searchLayer\<close>

text \<open>The first loop of \<open>searchLayer\<close>: every entry point goes into both queues.\<close>

fun searchLayer_init ::
  "HNSWIndex \<Rightarrow> float32 list \<Rightarrow> addr option list \<Rightarrow> PriorityQueue \<Rightarrow> PriorityQueue \<Rightarrow> string set
     \<Rightarrow> (PriorityQueue \<times> PriorityQueue \<times> string set) option" where
  "searchLayer_init h query [] candidates w visited = Some (candidates, w, visited)"
| "searchLayer_init h query (ep # eps) candidates w visited =
     (case ep of
        None \<Rightarrow> None \<comment> \<open>\<open>ep.Vector\<close> of a nil pointer\<close>
      | Some p \<Rightarrow>
          let distance = CalculateDistance query (Vector (store h p)) (distanceFunc h)
          in searchLayer_init h query eps
               (heap_Push candidates \<lparr> Item_ID = ID (store h p), Distance = distance \<rparr>)
               (heap_Push w \<lparr> Item_ID = ID (store h p), Distance = - distance \<rparr>)
               (insert (ID (store h p)) visited))"

text \<open>
  The loop over the connections of the current node, in the order \<open>neighborIDs\<close> that
  \<open>range\<close> delivers them.
\<close>

fun searchLayer_neighbors ::
  "HNSWIndex \<Rightarrow> float32 list \<Rightarrow> int \<Rightarrow> string list \<Rightarrow> PriorityQueue \<Rightarrow> PriorityQueue \<Rightarrow> string set
     \<Rightarrow> (PriorityQueue \<times> PriorityQueue \<times> string set) option" where
  "searchLayer_neighbors h query ef [] candidates w visited = Some (candidates, w, visited)"
| "searchLayer_neighbors h query ef (neighborID # rest) candidates w visited =
     (if neighborID \<in> visited then searchLayer_neighbors h query ef rest candidates w visited
      else
        case map_of (nodes h) neighborID of
          None \<Rightarrow> None \<comment> \<open>\<open>neighbor.Vector\<close> of a nil pointer\<close>
        | Some p \<Rightarrow>
            let distance = CalculateDistance query (Vector (store h p)) (distanceFunc h)
            in if int (length w) < ef
               then searchLayer_neighbors h query ef rest
                      (heap_Push candidates \<lparr> Item_ID = neighborID, Distance = distance \<rparr>)
                      (heap_Push w \<lparr> Item_ID = neighborID, Distance = - distance \<rparr>)
                      (insert neighborID visited)
               else
                 (case w of
                    [] \<Rightarrow> None \<comment> \<open>\<open>(*w)[0]\<close> of an empty queue\<close>
                  | furthest # _ \<Rightarrow>
                      if distance < - Distance furthest
                      then
                        (case heap_Pop w of
                           None \<Rightarrow> None
                         | Some (_, w') \<Rightarrow>
                             searchLayer_neighbors h query ef rest
                               (heap_Push candidates \<lparr> Item_ID = neighborID, Distance = distance \<rparr>)
                               (heap_Push w' \<lparr> Item_ID = neighborID, Distance = - distance \<rparr>)
                               (insert neighborID visited))
                      else searchLayer_neighbors h query ef rest candidates w
                             (insert neighborID visited)))"

lemma searchLayer_neighbors_live:
  assumes "searchLayer_neighbors h query ef (n # ns) c w v = Some (c', w', v')" "n \<notin> v"
  shows "\<exists>p. map_of (nodes h) n = Some p"
  using assms by (cases "map_of (nodes h) n") simp_all

lemma searchLayer_neighbors_step:
  assumes "searchLayer_neighbors h query ef (n # ns) c w v = Some (c', w', v')" "n \<notin> v"
  shows "\<exists>c1 w1. searchLayer_neighbors h query ef ns c1 w1 (insert n v) = Some (c', w', v')
          \<and> length c1 \<le> Suc (length c)"
proof -
  from assms obtain p where p: "map_of (nodes h) n = Some p"
    using searchLayer_neighbors_live by blast
  let ?d = "CalculateDistance query (Vector (store h p)) (distanceFunc h)"
  show ?thesis
  proof (cases "int (length w) < ef")
    case True
    with assms p show ?thesis
      by (simp add: Let_def) (metis length_heap_Push le_refl)
  next
    case False
    note nf = this
    show ?thesis
    proof (cases w)
      case Nil
      with assms p nf show ?thesis by (simp add: Let_def)
    next
      case (Cons furthest ws)
      show ?thesis
      proof (cases "?d < - Distance furthest")
        case True
        show ?thesis
        proof (cases "heap_Pop w")
          case None
          with assms p nf Cons True show ?thesis by (simp add: Let_def)
        next
          case (Some a)
          obtain x w1 where "a = (x, w1)" by (cases a)
          with Some assms p nf Cons True show ?thesis
            by (simp add: Let_def) (metis length_heap_Push le_refl)
        qed
      next
        case False
        with assms p nf Cons show ?thesis
          by (simp add: Let_def) (metis le_SucI le_refl)
      qed
    qed
  qed
qed

lemma searchLayer_neighbors_measure:
  "searchLayer_neighbors h query ef ns c w v = Some (c', w', v') \<Longrightarrow>
     2 * card (fst ` set (nodes h) - v') + length c' \<le> 2 * card (fst ` set (nodes h) - v) + length c"
proof (induction ns arbitrary: c w v)
  case Nil
  then show ?case by simp
next
  case (Cons n ns)
  let ?K = "fst ` set (nodes h)"
  show ?case
  proof (cases "n \<in> v")
    case True
    with Cons.prems have "searchLayer_neighbors h query ef ns c w v = Some (c', w', v')"
      by simp
    from Cons.IH [OF this] show ?thesis .
  next
    case False
    from searchLayer_neighbors_live [OF Cons.prems False]
    obtain p where p: "map_of (nodes h) n = Some p" by blast
    then have "n \<in> ?K"
      by (metis fst_conv image_eqI map_of_SomeD)
    with False have mem: "n \<in> ?K - v" by simp
    have fin: "finite (?K - v)" by simp
    have "?K - insert n v = (?K - v) - {n}" by auto
    with card.remove [OF fin mem]
    have dec: "Suc (card (?K - insert n v)) = card (?K - v)"
      by simp
    from searchLayer_neighbors_step [OF Cons.prems False] obtain c1 w1 where
      rec: "searchLayer_neighbors h query ef ns c1 w1 (insert n v) = Some (c', w', v')"
      and len: "length c1 \<le> Suc (length c)"
      by blast
    from Cons.IH [OF rec]
    have "2 * card (?K - v') + length c' \<le> 2 * card (?K - insert n v) + length c1" .
    with dec len show ?thesis by linarith
  qed
qed

text \<open>
  The main loop of \<open>searchLayer\<close>.  It returns the queue \<open>w\<close> and what is left of the
  iteration oracle.
\<close>

function searchLayer_loop ::
  "HNSWIndex \<Rightarrow> float32 list \<Rightarrow> int \<Rightarrow> nat \<Rightarrow> (nat \<Rightarrow> nat) \<Rightarrow> PriorityQueue \<Rightarrow> PriorityQueue
     \<Rightarrow> string set \<Rightarrow> (PriorityQueue \<times> (nat \<Rightarrow> nat)) option" where
  "searchLayer_loop h query ef level it candidates w visited =
     (if candidates = [] then Some (w, it)
      else
        case heap_Pop candidates of
          None \<Rightarrow> None
        | Some (current, candidates') \<Rightarrow>
            if int (length w) \<ge> ef \<and> w = [] then None \<comment> \<open>\<open>(*w)[0]\<close> of an empty queue\<close>
            else if int (length w) \<ge> ef \<and> Distance current > - Distance (hd w)
            then Some (w, it) \<comment> \<open>break\<close>
            else
              (case map_of (nodes h) (Item_ID current) of
                 None \<Rightarrow> None \<comment> \<open>\<open>currentNode.Connections\<close> of a nil pointer\<close>
               | Some p \<Rightarrow>
                   if level < length (Connections (store h p))
                   then
                     let keys = remdups (Connections (store h p) ! level)
                     in (case searchLayer_neighbors h query ef (go_range it keys)
                               candidates' w visited of
                           None \<Rightarrow> None
                         | Some (candidates'', w'', visited'') \<Rightarrow>
                             searchLayer_loop h query ef level (it_drop (length keys) it)
                               candidates'' w'' visited'')
                   else searchLayer_loop h query ef level it candidates' w visited))"
  by pat_completeness auto
termination
proof (relation "measure (\<lambda>(h, query, ef, level, it, candidates, w, visited).
          2 * card (fst ` set (nodes h) - visited) + length candidates)", goal_cases)
  case 1
  show ?case by simp
next
  case (2 h query ef level it candidates w visited x2 current candidates' p keys x2a c'' x2b w'' v'')
  from 2 have "length candidates' < length candidates"
    by (auto dest!: heap_Pop_length)
  moreover from 2 have "2 * card (fst ` set (nodes h) - v'') + length c''
      \<le> 2 * card (fst ` set (nodes h) - visited) + length candidates'"
    by (auto dest!: searchLayer_neighbors_measure)
  ultimately show ?case by simp
next
  case (3 h query ef level it candidates w visited x2 current candidates' p)
  then show ?case
    by (auto dest!: heap_Pop_length)
qed

declare searchLayer_loop.simps [simp del]

text \<open>
  The last loop of \<open>searchLayer\<close>: \<open>w\<close> is emptied, each popped item put in front of the
  result, as the pointer \<open>h.nodes[item.ID]\<close> (nil when the id is not in the map).
\<close>

function searchLayer_result ::
  "HNSWIndex \<Rightarrow> PriorityQueue \<Rightarrow> addr option list \<Rightarrow> addr option list" where
  "searchLayer_result h w result =
     (case heap_Pop w of
        None \<Rightarrow> result \<comment> \<open>\<open>w.Len() = 0\<close>\<close>
      | Some (item, w') \<Rightarrow> searchLayer_result h w' (map_of (nodes h) (Item_ID item) # result))"
  by pat_completeness auto
termination
  by (relation "measure (\<lambda>(h, w, result). length w)") (auto dest!: heap_Pop_length)

declare searchLayer_result.simps [simp del]

definition searchLayer ::
  "HNSWIndex \<Rightarrow> (nat \<Rightarrow> nat) \<Rightarrow> float32 list \<Rightarrow> addr option list \<Rightarrow> int \<Rightarrow> nat
     \<Rightarrow> (addr option list \<times> (nat \<Rightarrow> nat)) option" where
  "searchLayer h it query entryPoints ef level =
     (case searchLayer_init h query entryPoints [] [] {} of
        None \<Rightarrow> None
      | Some (candidates, w, visited) \<Rightarrow>
          (case searchLayer_loop h query ef level it candidates w visited of
             None \<Rightarrow> None
           | Some (w', it') \<Rightarrow> Some (searchLayer_result h w' [], it')))"

subsection \<open>selectNeighbors, addConnection, pruneConnections\<close>

text \<open>
  One round of the selection sort in \<open>selectNeighbors\<close>: the index of the first smallest
  distance from \<open>i\<close> on is found, both slices are swapped there, and \<open>candidates[i]\<close> is
  appended to \<open>selected\<close>.
\<close>

definition selectNeighbors_round ::
  "nat \<Rightarrow> addr list \<times> float32 list \<times> addr list \<Rightarrow> addr list \<times> float32 list \<times> addr list" where
  "selectNeighbors_round i st =
     (case st of (candidates, distances, selected) \<Rightarrow>
        let minIdx = fold (\<lambda>j m. if distances ! j < distances ! m then j else m)
                       [i + 1 ..< length candidates] i;
            candidates' = (if minIdx \<noteq> i
                           then candidates[i := candidates ! minIdx, minIdx := candidates ! i]
                           else candidates);
            distances' = (if minIdx \<noteq> i
                          then distances[i := distances ! minIdx, minIdx := distances ! i]
                          else distances)
        in (candidates', distances', selected @ [candidates' ! i]))"

text \<open>
  \<open>selectNeighbors\<close>.  It panics on \<open>make([]*HNSWNode, 0, m)\<close> when \<open>m < 0\<close> (\<open>m\<close> is below
  the length of a slice that exists, so the allocation is never too large) and on
  \<open>candidate.Vector\<close> when a candidate is nil.  Past the first test \<open>m < len(candidates)\<close>,
  so the rounds are \<open>0 .. m - 1\<close>.
\<close>

definition selectNeighbors ::
  "HNSWIndex \<Rightarrow> addr option list \<Rightarrow> int \<Rightarrow> float32 list \<Rightarrow> nat \<Rightarrow> addr option list option" where
  "selectNeighbors h candidates m query level =
     (if int (length candidates) \<le> m then Some candidates
      else if m < 0 then None
      else
        case those candidates of
          None \<Rightarrow> None
        | Some ps \<Rightarrow>
            let distances = map (\<lambda>p. CalculateDistance query (Vector (store h p)) (distanceFunc h)) ps
            in (case fold selectNeighbors_round [0 ..< nat m] (ps, distances, []) of
                  (_, _, selected) \<Rightarrow> Some (map Some selected)))"

text \<open>\<open>addConnection\<close>, on the store; both pointers may be nil.\<close>

definition addConnection ::
  "(addr \<Rightarrow> HNSWNode) \<Rightarrow> addr option \<Rightarrow> addr option \<Rightarrow> nat \<Rightarrow> (addr \<Rightarrow> HNSWNode) option" where
  "addConnection st node1 node2 level =
     (case node1 of
        None \<Rightarrow> None
      | Some p1 \<Rightarrow>
          if level < length (Connections (st p1))
          then
            (case node2 of
               None \<Rightarrow> None
             | Some p2 \<Rightarrow>
                 Some (st(p1 := (st p1)\<lparr> Connections :=
                         (Connections (st p1))[level := set_add (ID (st p2)) (Connections (st p1) ! level)] \<rparr>)))
          else Some st)"

text \<open>
  The loop of \<open>pruneConnections\<close>: \<open>s\<close> is the connection set of the node at the layer,
  \<open>connections\<close> the slice of its keys.  \<open>i\<close> is an \<open>int\<close>: with a negative \<open>maxConn\<close> the
  loop reaches \<open>i = -1\<close>, where \<open>Intn(0)\<close> panics.
\<close>

function pruneConnections_loop ::
  "int \<Rightarrow> int \<Rightarrow> string list \<Rightarrow> string list \<Rightarrow> Rand \<Rightarrow> (string list \<times> Rand) option" where
  "pruneConnections_loop maxConn i s connections r =
     (if i \<ge> maxConn
      then
        (case Intn r (i + 1) of
           None \<Rightarrow> None
         | Some (removeIdx, r') \<Rightarrow>
             if removeIdx < length connections \<and> nat i < length connections
             then pruneConnections_loop maxConn (i - 1)
                    (removeAll (connections ! removeIdx) s)
                    (connections[removeIdx := connections ! nat i]) r'
             else None)
      else Some (s, r))"
  by pat_completeness auto
termination
  by (relation "measure (\<lambda>(maxConn, i, s, connections, r). nat (i - maxConn + 1))") auto

declare pruneConnections_loop.simps [simp del]

definition pruneConnections ::
  "HNSWIndex \<Rightarrow> (nat \<Rightarrow> nat) \<Rightarrow> addr option \<Rightarrow> nat \<Rightarrow> (HNSWIndex \<times> (nat \<Rightarrow> nat)) option" where
  "pruneConnections h it node level =
     (let maxConn = (if level = 0 then MaxM0 (config h) else M (config h))
      in (case node of
            None \<Rightarrow> None
          | Some p \<Rightarrow>
              if level < length (Connections (store h p))
                 \<and> set_len (Connections (store h p) ! level) > maxConn
              then
                let keys = remdups (Connections (store h p) ! level);
                    connections = go_range it keys
                in (case pruneConnections_loop maxConn (int (length connections) - 1)
                          (Connections (store h p) ! level) connections (rng h) of
                      None \<Rightarrow> None
                    | Some (s', r') \<Rightarrow>
                        Some (h\<lparr> store := (store h)(p := (store h p)\<lparr> Connections :=
                                    (Connections (store h p))[level := s'] \<rparr>),
                                rng := r' \<rparr>,
                              it_drop (length keys) it))
              else Some (h, it)))"

subsection \<open>Insert\<close>

text \<open>
  The first loop of \<open>Insert\<close> (and of \<open>Search\<close>): \<open>searchLayer\<close> with \<open>ef = 1\<close> on each of
  the layers \<open>levels\<close>, from the top down.
\<close>

fun descend ::
  "HNSWIndex \<Rightarrow> float32 list \<Rightarrow> nat list \<Rightarrow> addr option list \<Rightarrow> (nat \<Rightarrow> nat)
     \<Rightarrow> (addr option list \<times> (nat \<Rightarrow> nat)) option" where
  "descend h query [] ep it = Some (ep, it)"
| "descend h query (currentLevel # levels) ep it =
     (case searchLayer h it query ep 1 currentLevel of
        None \<Rightarrow> None
      | Some (ep', it') \<Rightarrow> descend h query levels ep' it')"

text \<open>The loop over \<open>selectedNeighbors\<close>: two \<open>addConnection\<close>s and a \<open>pruneConnections\<close>.\<close>

fun Insert_connect ::
  "HNSWIndex \<Rightarrow> (nat \<Rightarrow> nat) \<Rightarrow> addr \<Rightarrow> nat \<Rightarrow> addr option list
     \<Rightarrow> (HNSWIndex \<times> (nat \<Rightarrow> nat)) option" where
  "Insert_connect h it node currentLevel [] = Some (h, it)"
| "Insert_connect h it node currentLevel (neighbor # rest) =
     (case addConnection (store h) (Some node) neighbor currentLevel of
        None \<Rightarrow> None
      | Some st1 \<Rightarrow>
          (case addConnection st1 neighbor (Some node) currentLevel of
             None \<Rightarrow> None
           | Some st2 \<Rightarrow>
               (case pruneConnections (h\<lparr> store := st2 \<rparr>) it neighbor currentLevel of
                  None \<Rightarrow> None
                | Some (h', it') \<Rightarrow> Insert_connect h' it' node currentLevel rest)))"

text \<open>The second loop of \<open>Insert\<close>, over the layers \<open>min(level, maxLevel) .. 0\<close>.\<close>

fun Insert_layers ::
  "HNSWIndex \<Rightarrow> (nat \<Rightarrow> nat) \<Rightarrow> float32 list \<Rightarrow> addr \<Rightarrow> nat list \<Rightarrow> addr option list
     \<Rightarrow> (HNSWIndex \<times> (nat \<Rightarrow> nat)) option" where
  "Insert_layers h it vector node [] ep = Some (h, it)"
| "Insert_layers h it vector node (currentLevel # levels) ep =
     (case searchLayer h it vector ep (EfConstruction (config h)) currentLevel of
        None \<Rightarrow> None
      | Some (candidates, it1) \<Rightarrow>
          let maxConn = (if currentLevel = 0 then MaxM0 (config h) else M (config h))
          in (case selectNeighbors h candidates maxConn vector currentLevel of
                None \<Rightarrow> None
              | Some selectedNeighbors \<Rightarrow>
                  (case Insert_connect h it1 node currentLevel selectedNeighbors of
                     None \<Rightarrow> None
                   | Some (h', it2) \<Rightarrow>
                       Insert_layers h' it2 vector node levels selectedNeighbors)))"

section \<open>hnsw.go: level assignment\<close>

text \<open>
  \<open>getRandomLevel\<close>: the loop \<open>for h.rng.Float64() < h.levelMultiplier && level < 16\<close>.
  The draw is the left operand of \<open>&&\<close>, so it is taken on every test, the last one included.
\<close>

function getRandomLevel_loop :: "real \<Rightarrow> Rand \<Rightarrow> nat \<Rightarrow> nat \<times> Rand" where
  "getRandomLevel_loop ml r level =
     (case Float64 r of (u, r') \<Rightarrow>
        if u < ml \<and> level < 16
        then getRandomLevel_loop ml r' (level + 1)
        else (level, r'))"
  by pat_completeness auto
termination
  by (relation "measure (\<lambda>(ml, r, level). 16 - level)") auto

declare getRandomLevel_loop.simps [simp del]

definition getRandomLevel :: "real \<Rightarrow> Rand \<Rightarrow> nat \<times> Rand" where
  "getRandomLevel ml r = getRandomLevel_loop ml r 0"

section \<open>hnsw.go: Insert, Search, Delete\<close>

text \<open>
  \<open>Insert\<close> of the index.  The result is \<open>None\<close> when the call panics, else the returned
  \<open>error\<close> (\<open>None\<close> for nil) and the index after the call.
\<close>

definition HNSWIndex_Insert ::
  "HNSWIndex \<Rightarrow> (nat \<Rightarrow> nat) \<Rightarrow> string \<Rightarrow> float32 list \<Rightarrow> tags \<Rightarrow> (error option \<times> HNSWIndex) option" where
  "HNSWIndex_Insert h it ident vector metadata =
     (if int (length vector) \<noteq> dimensions h
      then Some (Some (DimensionMismatchError (dimensions h) (int (length vector))), h)
      else
        (case getRandomLevel (levelMultiplier h) (rng h) of
           (level, r) \<Rightarrow>
             let node = new_addr h;
                 h1 = h\<lparr> rng := r,
                         store := (store h)(node :=
                           \<lparr> ID = ident, Vector = vector, Connections = replicate (level + 1) [],
                             Level = level, Metadata = metadata \<rparr>) \<rparr>
             in (case entryPoint h1 of
                   None \<Rightarrow>
                     Some (None, h1\<lparr> entryPoint := Some node,
                                      nodes := map_put ident node (nodes h1),
                                      maxLevel := level \<rparr>)
                 | Some e \<Rightarrow>
                     (case descend h1 vector (rev [level + 1 ..< maxLevel h1 + 1]) [Some e] it of
                        None \<Rightarrow> None
                      | Some (ep, it1) \<Rightarrow>
                          (case Insert_layers h1 it1 vector node
                                  (rev [0 ..< min level (maxLevel h1) + 1]) ep of
                             None \<Rightarrow> None
                           | Some (h2, it2) \<Rightarrow>
                               let h3 = (if level > maxLevel h2
                                         then h2\<lparr> maxLevel := level, entryPoint := Some node \<rparr>
                                         else h2)
                               in Some (None, h3\<lparr> nodes := map_put ident node (nodes h3) \<rparr>))))))"

text \<open>
  The last loop of \<open>Search\<close>: the first \<open>k\<close> candidates with their distances; a nil
  candidate panics on \<open>node.Vector\<close>.
\<close>

fun Search_results :: "HNSWIndex \<Rightarrow> float32 list \<Rightarrow> addr option list \<Rightarrow> SearchResult list option" where
  "Search_results h vector [] = Some []"
| "Search_results h vector (node # rest) =
     (case node of
        None \<Rightarrow> None
      | Some p \<Rightarrow>
          (case Search_results h vector rest of
             None \<Rightarrow> None
           | Some results \<Rightarrow>
               Some (\<lparr> Result_ID = ID (store h p),
                       Score = CalculateDistance vector (Vector (store h p)) (distanceFunc h) \<rparr>
                     # results)))"

text \<open>
  \<open>make([]T, 0, cap)\<close> panics when \<open>cap\<close> is negative or the slice would be larger than
  the address space the allocator manages (\<open>maxAlloc\<close>, \<open>2 ^ 48\<close> bytes on amd64).  What it
  does with a request below that limit that the machine cannot satisfy (the process ends)
  is outside the model, where memory is unbounded.
\<close>

definition makeslice_panics :: "int \<Rightarrow> int \<Rightarrow> bool" where
  "makeslice_panics elemsize cap = (cap < 0 \<or> 2 ^ 48 < elemsize * cap)"

text \<open>
  \<open>Search\<close> of the index.  A \<open>SearchResult\<close> (a string header and a \<open>float32\<close>) takes 24
  bytes.
\<close>

definition HNSWIndex_Search ::
  "HNSWIndex \<Rightarrow> (nat \<Rightarrow> nat) \<Rightarrow> float32 list \<Rightarrow> int \<Rightarrow> int \<Rightarrow> (error + SearchResult list) option" where
  "HNSWIndex_Search h it vector k ef =
     (if int (length vector) \<noteq> dimensions h
      then Some (Inl (DimensionMismatchError (dimensions h) (int (length vector))))
      else
        (case entryPoint h of
           None \<Rightarrow> Some (Inr [])
         | Some e \<Rightarrow>
             let ef' = (if ef < k then k else ef)
             in (case descend h vector (rev [1 ..< maxLevel h + 1]) [Some e] it of
                   None \<Rightarrow> None
                 | Some (ep, it1) \<Rightarrow>
                     (case searchLayer h it1 vector ep ef' 0 of
                        None \<Rightarrow> None
                      | Some (candidates, it2) \<Rightarrow>
                          if makeslice_panics 24 k then None
                          else
                            (case Search_results h vector (take (nat k) candidates) of
                               None \<Rightarrow> None
                             | Some results \<Rightarrow> Some (Inr results))))))"

text \<open>
  \<open>findNewEntryPoint\<close>: the scan ranges over \<open>h.nodes\<close> as it is when the function is
  called, and keeps a node only when its level is greater than \<open>maxLevel\<close>, which starts
  at 0.
\<close>

definition findNewEntryPoint :: "HNSWIndex \<Rightarrow> (nat \<Rightarrow> nat) \<Rightarrow> HNSWIndex" where
  "findNewEntryPoint h it =
     fold (\<lambda>key h'.
             case map_of (nodes h) key of
               None \<Rightarrow> h'
             | Some p \<Rightarrow>
                 if Level (store h p) > maxLevel h'
                 then h'\<lparr> maxLevel := Level (store h p), entryPoint := Some p \<rparr>
                 else h')
          (go_range it (map_keys (nodes h)))
          (h\<lparr> entryPoint := None, maxLevel := 0 \<rparr>)"

text \<open>
  The inner loop of \<open>Delete\<close>: \<open>id\<close> is deleted from the layer of every neighbour that is
  in the map; \<open>neighbor.Connections[level]\<close> panics when the neighbour has no such layer.
\<close>

fun Delete_neighbors ::
  "(string \<times> addr) list \<Rightarrow> string \<Rightarrow> nat \<Rightarrow> string list \<Rightarrow> (addr \<Rightarrow> HNSWNode)
     \<Rightarrow> (addr \<Rightarrow> HNSWNode) option" where
  "Delete_neighbors ns ident level [] st = Some st"
| "Delete_neighbors ns ident level (neighborID # rest) st =
     (case map_of ns neighborID of
        None \<Rightarrow> Delete_neighbors ns ident level rest st
      | Some q \<Rightarrow>
          if level < length (Connections (st q))
          then Delete_neighbors ns ident level rest
                 (st(q := (st q)\<lparr> Connections :=
                    (Connections (st q))[level := removeAll ident (Connections (st q) ! level)] \<rparr>))
          else None)"

text \<open>The outer loop of \<open>Delete\<close>, over the layers \<open>0 .. node.Level\<close> of the node at \<open>p\<close>.\<close>

fun Delete_levels ::
  "(string \<times> addr) list \<Rightarrow> string \<Rightarrow> addr \<Rightarrow> nat list \<Rightarrow> (nat \<Rightarrow> nat) \<Rightarrow> (addr \<Rightarrow> HNSWNode)
     \<Rightarrow> ((addr \<Rightarrow> HNSWNode) \<times> (nat \<Rightarrow> nat)) option" where
  "Delete_levels ns ident p [] it st = Some (st, it)"
| "Delete_levels ns ident p (level # levels) it st =
     (if level < length (Connections (st p))
      then
        let keys = remdups (Connections (st p) ! level)
        in (case Delete_neighbors ns ident level (go_range it keys) st of
              None \<Rightarrow> None
            | Some st' \<Rightarrow> Delete_levels ns ident p levels (it_drop (length keys) it) st')
      else None)"

definition HNSWIndex_Delete ::
  "HNSWIndex \<Rightarrow> (nat \<Rightarrow> nat) \<Rightarrow> string \<Rightarrow> (error option \<times> HNSWIndex) option" where
  "HNSWIndex_Delete h it ident =
     (case map_of (nodes h) ident of
        None \<Rightarrow> Some (Some (VectorNotFoundError ident), h)
      | Some p \<Rightarrow>
          (case Delete_levels (nodes h) ident p [0 ..< Level (store h p) + 1] it (store h) of
             None \<Rightarrow> None
           | Some (st, it') \<Rightarrow>
               let h1 = h\<lparr> store := st \<rparr>;
                   h2 = (if entryPoint h1 = Some p then findNewEntryPoint h1 it' else h1)
               in Some (None, h2\<lparr> nodes := map_delete ident (nodes h2) \<rparr>)))"

section \<open>database.go: the facade\<close>

text \<open>
  \<open>DatabaseConfig\<close> and \<open>VectorDatabase\<close>.  The statistics tracker, the auto-save worker
  with its channel, the persistence path and the mutex are left out: no operation below
  reads them.
\<close>

record DatabaseConfig =
  Dimensions :: int
  Cfg_DistanceMetric :: DistanceMetric
  Cfg_HNSWConfig :: HNSWConfig

record VectorDatabase =
  index :: HNSWIndex
  vectors :: "(string \<times> VectorMetadata) list"
  db_config :: DatabaseConfig
  db_dimensions :: int

definition NewVectorDatabase :: "DatabaseConfig \<Rightarrow> Rand \<Rightarrow> error + VectorDatabase" where
  "NewVectorDatabase cfg r =
     (if Dimensions cfg \<le> 0 then Inl (InvalidConfigError ''dimensions'')
      else Inr \<lparr> index = NewHNSWIndex (Cfg_HNSWConfig cfg) (Dimensions cfg) (Cfg_DistanceMetric cfg) r,
                 vectors = [], db_config = cfg, db_dimensions = Dimensions cfg \<rparr>)"

text \<open>\<open>Insert\<close> of the facade; \<open>now\<close> is the reading of the clock.\<close>

definition VectorDatabase_Insert ::
  "VectorDatabase \<Rightarrow> (nat \<Rightarrow> nat) \<Rightarrow> nat \<Rightarrow> InsertRequest \<Rightarrow> (error option \<times> VectorDatabase) option" where
  "VectorDatabase_Insert db it now req =
     (if int (length (Data (Req_Vector req))) \<noteq> db_dimensions db
      then Some (Some (DimensionMismatchError (db_dimensions db)
                         (int (length (Data (Req_Vector req))))), db)
      else if map_of (vectors db) (Vector_ID (Req_Vector req)) \<noteq> None
      then Some (Some (Errorf (''vector with ID '' @ Vector_ID (Req_Vector req)
                                 @ '' already exists'')), db)
      else
        (case HNSWIndex_Insert (index db) it (Vector_ID (Req_Vector req))
                (Data (Req_Vector req)) (Req_Metadata req) of
           None \<Rightarrow> None
         | Some (Some err, h') \<Rightarrow> Some (Some (DatabaseError ''insert'' err), db\<lparr> index := h' \<rparr>)
         | Some (None, h') \<Rightarrow>
             Some (None, db\<lparr> index := h',
                             vectors := map_put (Vector_ID (Req_Vector req))
                                          \<lparr> CreatedAt = now, Tags = Req_Metadata req \<rparr>
                                          (vectors db) \<rparr>)))"

definition VectorDatabase_Search ::
  "VectorDatabase \<Rightarrow> (nat \<Rightarrow> nat) \<Rightarrow> SearchRequest \<Rightarrow> (error + SearchResult list) option" where
  "VectorDatabase_Search db it req =
     (if int (length (Query req)) \<noteq> db_dimensions db
      then Some (Inl (DimensionMismatchError (db_dimensions db) (int (length (Query req)))))
      else
        let k = (if K req \<le> 0 then 10 else K req);
            ef = CalculateOptimalEf k (EfSearch (Cfg_HNSWConfig (db_config db)))
        in HNSWIndex_Search (index db) it (Query req) k ef)"

definition VectorDatabase_Delete ::
  "VectorDatabase \<Rightarrow> (nat \<Rightarrow> nat) \<Rightarrow> string \<Rightarrow> (error option \<times> VectorDatabase) option" where
  "VectorDatabase_Delete db it ident =
     (case map_of (vectors db) ident of
        None \<Rightarrow> Some (Some (VectorNotFoundError ident), db)
      | Some _ \<Rightarrow>
          (case HNSWIndex_Delete (index db) it ident of
             None \<Rightarrow> None
           | Some (Some err, h') \<Rightarrow> Some (Some (DatabaseError ''delete'' err), db\<lparr> index := h' \<rparr>)
           | Some (None, h') \<Rightarrow>
               Some (None, db\<lparr> index := h', vectors := map_delete ident (vectors db) \<rparr>)))"

definition VectorDatabase_Get :: "VectorDatabase \<Rightarrow> string \<Rightarrow> error + (Vector \<times> VectorMetadata)" where
  "VectorDatabase_Get db ident =
     (case map_of (vectors db) ident of
        None \<Rightarrow> Inl (VectorNotFoundError ident)
      | Some metadata \<Rightarrow>
          (case map_of (nodes (index db)) ident of
             None \<Rightarrow> Inl (DatabaseError ''get''
                            (Errorf ''vector found in metadata but not in index''))
           | Some p \<Rightarrow>
               Inr (\<lparr> Vector_ID = ident, Data = Vector (store (index db) p) \<rparr>, metadata)))"

text \<open>
  \<open>List\<close>.  \<open>offset\<close> and \<open>limit\<close> are 64-bit \<open>int\<close>s, compared as signed values;
  \<open>offset + limit\<close> wraps.  The slice expression \<open>ids[offset:end]\<close> panics unless
  \<open>0 \<le> offset \<le> end \<le> cap(ids)\<close>, and \<open>cap(ids) = len(ids)\<close> here.  The error result is
  always nil and is left out.
\<close>

definition VectorDatabase_List ::
  "VectorDatabase \<Rightarrow> (nat \<Rightarrow> nat) \<Rightarrow> 64 word \<Rightarrow> 64 word \<Rightarrow> string list option" where
  "VectorDatabase_List db it offset limit =
     (let ids = go_range it (map_keys (vectors db));
          n = (word_of_nat (length ids) :: 64 word)
      in if word_sle n offset then Some []
         else
           let end0 = offset + limit;
               end1 = (if word_sless n end0 then n else end0)
           in if word_sle 0 offset \<and> word_sle offset end1 \<and> word_sle end1 n
              then Some (take (unat end1 - unat offset) (drop (unat offset) ids))
              else None)"

text \<open>
  \<open>Save\<close> writes files and leaves the database as it is.  The result here is the content
  it gives \<open>vectors.json\<close>: one entry for every id of \<open>db.vectors\<close> that the index knows.
  Failures of the file system are not modelled.
\<close>

definition VectorDatabase_Save ::
  "VectorDatabase \<Rightarrow> (nat \<Rightarrow> nat) \<Rightarrow> (string \<times> float32 list \<times> VectorMetadata) list \<times> VectorDatabase" where
  "VectorDatabase_Save db it =
     (concat (map (\<lambda>ident.
                case (map_of (vectors db) ident, map_of (nodes (index db)) ident) of
                  (Some metadata, Some p) \<Rightarrow> [(ident, Vector (store (index db) p), metadata)]
                | _ \<Rightarrow> [])
              (go_range it (map_keys (vectors db)))),
      db)"

text \<open>
  \<open>Load\<close>.  What it finds on disk is a \<open>vectors_file\<close>: no file, a file that cannot be
  read, a file that is not JSON, or the parsed entries in the order \<open>range\<close> walks them
  (id, vector, tags); the numbers of a vector are parsed as \<open>float64\<close> and converted.  An entry of the wrong JSON shape makes the type assertions of the
  source panic; such files are outside \<open>Entries\<close>.  Entry number \<open>n\<close> is inserted with the
  iteration oracle \<open>its n\<close> and stamped with the clock reading \<open>clock n\<close>.
\<close>

datatype vectors_file =
  NoFile | ReadError | BadJSON | Entries "(string \<times> float64 list \<times> tags) list"

fun Load_entries ::
  "VectorDatabase \<Rightarrow> (nat \<Rightarrow> nat \<Rightarrow> nat) \<Rightarrow> (nat \<Rightarrow> nat) \<Rightarrow> (string \<times> float64 list \<times> tags) list
     \<Rightarrow> (error option \<times> VectorDatabase) option" where
  "Load_entries db its clock [] = Some (None, db)"
| "Load_entries db its clock ((ident, vector, metadata) # rest) =
     (case HNSWIndex_Insert (index db) (its 0) ident (map to_float32 vector) metadata of
        None \<Rightarrow> None
      | Some (Some err, h') \<Rightarrow>
          Some (Some (DatabaseError ''rebuild_index'' err), db\<lparr> index := h' \<rparr>)
      | Some (None, h') \<Rightarrow>
          Load_entries
            (db\<lparr> index := h',
                 vectors := map_put ident \<lparr> CreatedAt = clock 0, Tags = metadata \<rparr> (vectors db) \<rparr>)
            (\<lambda>n. its (Suc n)) (\<lambda>n. clock (Suc n)) rest)"

definition VectorDatabase_Load ::
  "VectorDatabase \<Rightarrow> (nat \<Rightarrow> nat \<Rightarrow> nat) \<Rightarrow> (nat \<Rightarrow> nat) \<Rightarrow> vectors_file
     \<Rightarrow> (error option \<times> VectorDatabase) option" where
  "VectorDatabase_Load db its clock file =
     (case file of
        NoFile \<Rightarrow> Some (None, db)
      | ReadError \<Rightarrow> Some (Some (PersistenceError ''read_vectors'' ''vectors.json''), db)
      | BadJSON \<Rightarrow> Some (Some (PersistenceError ''unmarshal_vectors'' ''vectors.json''), db)
      | Entries es \<Rightarrow> Load_entries db its clock es)"

text \<open>
  The operations of the facade as data, and the database after one of them; \<open>None\<close> when
  the operation panics.
\<close>

datatype operation =
  Op_Insert InsertRequest nat
| Op_Search SearchRequest
| Op_Delete string
| Op_Get string
| Op_List "64 word" "64 word"
| Op_Save
| Op_Load vectors_file "nat \<Rightarrow> nat"

fun exec :: "VectorDatabase \<Rightarrow> (nat \<Rightarrow> nat \<Rightarrow> nat) \<Rightarrow> operation \<Rightarrow> VectorDatabase option" where
  "exec db its (Op_Insert req now) = map_option snd (VectorDatabase_Insert db (its 0) now req)"
| "exec db its (Op_Search req) = map_option (\<lambda>_. db) (VectorDatabase_Search db (its 0) req)"
| "exec db its (Op_Delete ident) = map_option snd (VectorDatabase_Delete db (its 0) ident)"
| "exec db its (Op_Get ident) = Some db"
| "exec db its (Op_List offset limit) =
     map_option (\<lambda>_. db) (VectorDatabase_List db (its 0) offset limit)"
| "exec db its Op_Save = Some (snd (VectorDatabase_Save db (its 0)))"
| "exec db its (Op_Load file clock) = map_option snd (VectorDatabase_Load db its clock file)"

fun run :: "VectorDatabase \<Rightarrow> ((nat \<Rightarrow> nat \<Rightarrow> nat) \<times> operation) list \<Rightarrow> VectorDatabase option" where
  "run db [] = Some db"
| "run db ((its, op) # ops) =
     (case exec db its op of None \<Rightarrow> None | Some db' \<Rightarrow> run db' ops)"

section \<open>Example states\<close>

text \<open>
  Concrete inputs for the evaluations below.  \<open>rng_level0\<close> delivers draws that give every
  node level 0 (\<open>0.9 \<ge> Ml\<close>); \<open>rng_level1\<close> gives the first node level 1 and the later ones
  level 0.  \<open>it_first\<close> makes every \<open>range\<close> visit the keys in the order they were stored.
\<close>

definition rng_level0 :: Rand where
  "rng_level0 = \<lparr> float64s = (\<lambda>_. 0.9), intns = (\<lambda>_. 0) \<rparr>"

definition rng_level1 :: Rand where
  "rng_level1 = \<lparr> float64s = (\<lambda>n. if n = 0 then 0.1 else 0.9), intns = (\<lambda>_. 0) \<rparr>"

definition it_first :: "nat \<Rightarrow> nat" where
  "it_first = (\<lambda>_. 0)"

definition example_config :: "HNSWConfig \<Rightarrow> DatabaseConfig" where
  "example_config cfg =
     \<lparr> Dimensions = 3, Cfg_DistanceMetric = ManhattanDistance, Cfg_HNSWConfig = cfg \<rparr>"

definition empty_db :: "HNSWConfig \<Rightarrow> Rand \<Rightarrow> VectorDatabase" where
  "empty_db cfg r =
     \<lparr> index = NewHNSWIndex cfg 3 ManhattanDistance r, vectors = [],
       db_config = example_config cfg, db_dimensions = 3 \<rparr>"

text \<open>
  The vectors of the examples are written with decimal literals; each number stands for
  the nearest \<open>float32\<close> (resp. \<open>float64\<close>, for the numbers of a file).
\<close>

definition float32s :: "real list \<Rightarrow> float32 list" where
  "float32s = map round32"

definition as_float64s :: "real list \<Rightarrow> float64 list" where
  "as_float64s = map round64"

definition insert_req :: "string \<Rightarrow> real list \<Rightarrow> InsertRequest" where
  "insert_req ident v =
     \<lparr> Req_Vector = \<lparr> Vector_ID = ident, Data = float32s v \<rparr>, Req_Metadata = None \<rparr>"

definition search_req :: "real list \<Rightarrow> int \<Rightarrow> SearchRequest" where
  "search_req q k = \<lparr> Query = float32s q, K = k, Req_DistanceMetric = ManhattanDistance \<rparr>"

text \<open>The database after the operations \<open>ops\<close>, each run with \<open>it_first\<close>.\<close>

definition after :: "VectorDatabase \<Rightarrow> operation list \<Rightarrow> VectorDatabase option" where
  "after db ops = run db (map (\<lambda>op. (\<lambda>_. it_first, op)) ops)"

text \<open>
  What the invariants talk about: the keys of the metadata map, the keys of the node
  map, the entry point, \<open>maxLevel\<close>, and for every node of the map its id, address and
  connection sets.
\<close>

definition summary ::
  "VectorDatabase \<Rightarrow> string list \<times> string list \<times> addr option \<times> nat \<times> (string \<times> addr \<times> string list list) list" where
  "summary db =
     (map_keys (vectors db), map_keys (nodes (index db)), entryPoint (index db),
      maxLevel (index db),
      map (\<lambda>(k, p). (k, p, Connections (store (index db) p))) (nodes (index db)))"

text \<open>A configuration with degree caps of 1, so that three vectors already prune.\<close>

definition tight_config :: HNSWConfig where
  "tight_config = DefaultHNSWConfig\<lparr> M := 1, MaxM0 := 1 \<rparr>"

text \<open>The database that holds the single vector \<open>a = [1, 0, 0]\<close>, at level 0.\<close>

definition db_a :: VectorDatabase where
  "db_a =
     (case after (empty_db DefaultHNSWConfig rng_level0) [Op_Insert (insert_req ''a'' [1, 0, 0]) 0] of
        Some db \<Rightarrow> db
      | None \<Rightarrow> empty_db DefaultHNSWConfig rng_level0)"

section \<open>What the operations leave alone\<close>

text \<open>
  The part of a node that no operation changes after the node is created (id, vector,
  level), and the part of the index that the linking loops of \<open>Insert\<close> do not touch.
\<close>

definition payload :: "(addr \<Rightarrow> HNSWNode) \<Rightarrow> addr \<Rightarrow> string \<times> float32 list \<times> nat" where
  "payload st p = (ID (st p), Vector (st p), Level (st p))"

definition frame ::
  "HNSWIndex \<Rightarrow> (string \<times> addr) list \<times> addr option \<times> nat \<times> HNSWConfig \<times> int \<times> DistanceMetric
     \<times> (addr \<Rightarrow> string \<times> float32 list \<times> nat)" where
  "frame h = (nodes h, entryPoint h, maxLevel h, config h, dimensions h, distanceFunc h,
              payload (store h))"

text \<open>The metadata map and the node map have the same keys.\<close>

definition keys_agree :: "VectorDatabase \<Rightarrow> bool" where
  "keys_agree db = (fst ` set (vectors db) = fst ` set (nodes (index db)))"

text \<open>
  For the round trip of \<open>Insert\<close> and \<open>Get\<close>: the operations that leave the vector stored
  under \<open>ident\<close> alone (every one but a \<open>Delete\<close> of \<open>ident\<close> and a \<open>Load\<close> of a file with an
  entry for \<open>ident\<close>), and the fact that the database holds \<open>v\<close> under \<open>ident\<close>.
\<close>

fun keeps :: "string \<Rightarrow> operation \<Rightarrow> bool" where
  "keeps ident (Op_Delete i) = (i \<noteq> ident)"
| "keeps ident (Op_Load (Entries es) clock) = (ident \<notin> fst ` set es)"
| "keeps ident _ = True"

definition holds :: "VectorDatabase \<Rightarrow> string \<Rightarrow> float32 list \<Rightarrow> bool" where
  "holds db ident v =
     (map_of (vectors db) ident \<noteq> None
      \<and> (\<exists>p. map_of (nodes (index db)) ident = Some p \<and> Vector (store (index db) p) = v))"

text \<open>A sequence of operations on \<open>db_a\<close> that leaves \<open>a\<close> alone, and the database after it.\<close>

definition trace_after_a :: "((nat \<Rightarrow> nat \<Rightarrow> nat) \<times> operation) list" where
  "trace_after_a =
     [(\<lambda>_. it_first, Op_Insert (insert_req ''b'' [0, 1, 0]) 1),
      (\<lambda>_. it_first, Op_Search (search_req [0, 1, 0] 2)),
      (\<lambda>_. it_first, Op_Delete ''b'')]"

definition db_a_later :: VectorDatabase where
  "db_a_later = (case run db_a trace_after_a of Some db \<Rightarrow> db | None \<Rightarrow> db_a)"

text \<open>
  A \<open>Load\<close> on \<open>db_a\<close> of a file that has an entry for \<open>a\<close>, with another vector, and the
  database after it.
\<close>

definition trace_reload_a :: "((nat \<Rightarrow> nat \<Rightarrow> nat) \<times> operation) list" where
  "trace_reload_a =
     [(\<lambda>_. it_first, Op_Load (Entries [(''a'', as_float64s [0, 5, 0], None)]) (\<lambda>_. 1))]"

definition db_a_reloaded :: VectorDatabase where
  "db_a_reloaded = (case run db_a trace_reload_a of Some db \<Rightarrow> db | None \<Rightarrow> db_a)"

section \<open>Predicates of the proofs\<close>

text \<open>
  The heap order that \<open>up\<close> and \<open>down\<close> maintain on the slice: the key of every position
  but the first is at least the key of its parent.  \<open>except_up\<close> and \<open>except_down\<close> are the
  order with one position under repair, as \<open>up\<close> and \<open>down\<close> meet it in their loops.  The
  order is one of scores, and \<open>up\<close> and \<open>down\<close> keep it in a queue that is \<open>numeric\<close>: no
  \<open>Distance\<close> in it is NaN.
\<close>

definition parent :: "nat \<Rightarrow> nat" where
  "parent j = (j - 1) div 2"

definition num_of :: "float \<Rightarrow> score" where
  "num_of f = (case f of Num a \<Rightarrow> a | NaN \<Rightarrow> PosInf)"

definition numeric :: "PriorityQueue \<Rightarrow> bool" where
  "numeric pq = (\<forall>x \<in> set pq. Distance x \<noteq> NaN)"

definition key :: "PriorityQueue \<Rightarrow> nat \<Rightarrow> score" where
  "key pq k = num_of (Distance (pq ! k))"

definition is_heap_upto :: "PriorityQueue \<Rightarrow> nat \<Rightarrow> bool" where
  "is_heap_upto pq n = (\<forall>k. 0 < k \<and> k < n \<longrightarrow> key pq (parent k) \<le> key pq k)"

definition is_heap :: "PriorityQueue \<Rightarrow> bool" where
  "is_heap pq = is_heap_upto pq (length pq)"

definition except_up :: "PriorityQueue \<Rightarrow> nat \<Rightarrow> bool" where
  "except_up pq j =
     ((\<forall>k. 0 < k \<and> k < length pq \<and> k \<noteq> j \<longrightarrow> key pq (parent k) \<le> key pq k)
      \<and> (\<forall>c. 0 < j \<and> c < length pq \<and> 0 < c \<and> parent c = j \<longrightarrow> key pq (parent j) \<le> key pq c))"

definition except_down :: "PriorityQueue \<Rightarrow> nat \<Rightarrow> nat \<Rightarrow> bool" where
  "except_down pq i n =
     ((\<forall>k. 0 < k \<and> k < n \<and> parent k \<noteq> i \<longrightarrow> key pq (parent k) \<le> key pq k)
      \<and> (\<forall>c. 0 < i \<and> c < n \<and> 0 < c \<and> parent c = i \<longrightarrow> key pq (parent i) \<le> key pq c))"

text \<open>
  For the order of the search results: the distance of the node at an address to the
  query; a node that is the one stored in the map under its own id; an index in which
  every node of the map carries the id it is stored under; a queue item whose id is in the
  map and whose key is the negated distance of that node, a number; an index in which the
  distance of the query to every node of the map is a number; a queue \<open>w\<close> in heap order
  whose items are all of this kind.
\<close>

definition dist_of :: "HNSWIndex \<Rightarrow> float32 list \<Rightarrow> addr \<Rightarrow> float32" where
  "dist_of h q p = CalculateDistance q (Vector (store h p)) (distanceFunc h)"

definition registered :: "HNSWIndex \<Rightarrow> addr \<Rightarrow> bool" where
  "registered h p = (map_of (nodes h) (ID (store h p)) = Some p)"

definition ids_consistent :: "HNSWIndex \<Rightarrow> bool" where
  "ids_consistent h = (\<forall>k p. map_of (nodes h) k = Some p \<longrightarrow> ID (store h p) = k)"

definition item_ok :: "HNSWIndex \<Rightarrow> float32 list \<Rightarrow> PriorityQueueItem \<Rightarrow> bool" where
  "item_ok h q x =
     (\<exists>p. map_of (nodes h) (Item_ID x) = Some p \<and> Distance x = - dist_of h q p
          \<and> dist_of h q p \<noteq> NaN)"

definition scores_comparable :: "HNSWIndex \<Rightarrow> float32 list \<Rightarrow> bool" where
  "scores_comparable h q =
     (\<forall>(ident, p) \<in> set (nodes h). CalculateDistance q (Vector (store h p)) (distanceFunc h) \<noteq> NaN)"

definition w_ok :: "HNSWIndex \<Rightarrow> float32 list \<Rightarrow> PriorityQueue \<Rightarrow> bool" where
  "w_ok h q w = (is_heap w \<and> (\<forall>x \<in> set w. item_ok h q x))"

text \<open>
  The states of the facade.  \<open>entry_ok\<close>: the entry point, when there is one, is the node
  stored under its id, or its id is not in the map at all (the state \<open>Delete\<close> can leave
  behind, in which every \<open>Insert\<close> and \<open>Search\<close> panics).  \<open>reachable\<close>: the databases that
  the operations of the facade produce from a new one.  \<open>Load\<close> inserts its entries without
  a duplicate check and is specified for an empty database; it is admitted where the
  entries have distinct ids (the keys of one JSON object) that the database does not hold.
\<close>

definition entry_ok :: "HNSWIndex \<Rightarrow> bool" where
  "entry_ok h =
     (case entryPoint h of
        None \<Rightarrow> True
      | Some e \<Rightarrow> map_of (nodes h) (ID (store h e)) = None \<or> registered h e)"

definition well_formed :: "VectorDatabase \<Rightarrow> bool" where
  "well_formed db = (keys_agree db \<and> ids_consistent (index db) \<and> entry_ok (index db))"

fun loads_fresh :: "VectorDatabase \<Rightarrow> operation \<Rightarrow> bool" where
  "loads_fresh db (Op_Load (Entries es) clock) =
     (distinct (map fst es) \<and> fst ` set es \<inter> fst ` set (vectors db) = {})"
| "loads_fresh db _ = True"

inductive reachable :: "VectorDatabase \<Rightarrow> bool" where
  new: "NewVectorDatabase cfg r = Inr db \<Longrightarrow> reachable db"
| step: "reachable db \<Longrightarrow> loads_fresh db op \<Longrightarrow> exec db its op = Some db' \<Longrightarrow> reachable db'"

text \<open>The database that holds \<open>a = [1, 0, 0]\<close>, \<open>b = [0, 1, 0]\<close> and \<open>c = [1, 1, 0]\<close>.\<close>

definition trace_b_c :: "((nat \<Rightarrow> nat \<Rightarrow> nat) \<times> operation) list" where
  "trace_b_c =
     [(\<lambda>_. it_first, Op_Insert (insert_req ''b'' [0, 1, 0]) 1),
      (\<lambda>_. it_first, Op_Insert (insert_req ''c'' [1, 1, 0]) 2)]"

definition db_abc :: VectorDatabase where
  "db_abc = (case run db_a trace_b_c of Some db \<Rightarrow> db | None \<Rightarrow> db_a)"

text \<open>
  The database that holds \<open>a = [1, 0, 0]\<close> and \<open>b = [0, 1, 0]\<close> and has then loaded a file
  in which \<open>a\<close> is \<open>[0, 5, 0]\<close>.
\<close>

definition trace_b_reload_a :: "((nat \<Rightarrow> nat \<Rightarrow> nat) \<times> operation) list" where
  "trace_b_reload_a =
     [(\<lambda>_. it_first, Op_Insert (insert_req ''b'' [0, 1, 0]) 1),
      (\<lambda>_. it_first, Op_Load (Entries [(''a'', as_float64s [0, 5, 0], None)]) (\<lambda>_. 2))]"

definition db_ab_reloaded :: VectorDatabase where
  "db_ab_reloaded = (case run db_a trace_b_reload_a of Some db \<Rightarrow> db | None \<Rightarrow> db_a)"

text \<open>
  A database of dimension 2 with the dot product as its metric, and four vectors in it,
  all at level 0.  The products of \<open>2 ^ 64\<close> with itself overflow.
\<close>

definition dot_config :: DatabaseConfig where
  "dot_config =
     \<lparr> Dimensions = 2, Cfg_DistanceMetric = DotProduct, Cfg_HNSWConfig = DefaultHNSWConfig \<rparr>"

definition empty_dot_db :: VectorDatabase where
  "empty_dot_db =
     \<lparr> index = NewHNSWIndex DefaultHNSWConfig 2 DotProduct rng_level0, vectors = [],
       db_config = dot_config, db_dimensions = 2 \<rparr>"

definition trace_dot :: "((nat \<Rightarrow> nat \<Rightarrow> nat) \<times> operation) list" where
  "trace_dot =
     [(\<lambda>_. it_first, Op_Insert (insert_req ''a'' [1, 0]) 0),
      (\<lambda>_. it_first, Op_Insert (insert_req ''b'' [2 ^ 64, - (2 ^ 64)]) 1),
      (\<lambda>_. it_first, Op_Insert (insert_req ''c'' [3, 0]) 2),
      (\<lambda>_. it_first, Op_Insert (insert_req ''d'' [- 1, 0]) 3)]"

definition db_dot :: VectorDatabase where
  "db_dot = (case run empty_dot_db trace_dot of Some db \<Rightarrow> db | None \<Rightarrow> empty_dot_db)"

section \<open>Properties\<close>

lemma length_float32s [simp]: "length (float32s v) = length v"
  by (simp add: float32s_def)

subsection \<open>Rounding\<close>

text \<open>
  A number that fits the precision is its own rounding: \<open>x \<ge> 1\<close> with \<open>x * 2 ^ a\<close> an
  integer below \<open>2 ^ p\<close>, and every integer of magnitude below \<open>2 ^ p\<close>.  Evaluation takes
  the second fact as a shortcut.
\<close>

lemma rne_of_int [simp]: "rne (real_of_int n) = n"
  by (simp add: rne_def)

lemma pow2_nonpos: "q \<le> 0 \<Longrightarrow> pow2 q = 1 / 2 ^ nat (- q)"
  by (auto simp: pow2_def)

lemma uminus_uminus_float [simp]: "- (- (a::float)) = a"
proof (cases a)
  case (Num b)
  then show ?thesis by (cases b) simp_all
qed simp

lemma float_less_irrefl [simp]: "\<not> (a::float) < a"
  by (cases a) simp_all

lemma round_to_minus: "round_to p emin emax (- x) = - round_to p emin emax x"
  by (simp add: round_to_def Let_def)

lemma round_to_pos_exact:
  assumes "1 \<le> x" and "x * 2 ^ a = real_of_int m" and "m < 2 ^ p" and "emin \<le> 0"
    and "int p \<le> emax + 1"
  shows "round_to p emin emax x = Num (Fin x)"
proof -
  define b where "b = bitlen \<lfloor>x\<rfloor>"
  from assms(1) have fl1: "1 \<le> \<lfloor>x\<rfloor>" by simp
  have "real_of_int (\<lfloor>x\<rfloor> * 2 ^ a) \<le> x * 2 ^ a"
    by (simp add: mult_right_mono)
  with assms(2) have "real_of_int (\<lfloor>x\<rfloor> * 2 ^ a) \<le> real_of_int m" by (simp only:)
  then have "\<lfloor>x\<rfloor> * 2 ^ a \<le> m" by (simp only: of_int_le_iff)
  with assms(3) have lt: "\<lfloor>x\<rfloor> * 2 ^ a < 2 ^ p" by simp
  have ap: "a < p"
  proof (rule ccontr)
    assume "\<not> a < p"
    then have "(2::int) ^ p \<le> 2 ^ a" by (simp add: power_increasing)
    also have "\<dots> \<le> \<lfloor>x\<rfloor> * 2 ^ a" using fl1 by simp
    finally show False using lt by simp
  qed
  then have "(2::int) ^ p = 2 ^ (p - a) * 2 ^ a"
    by (simp add: power_add [symmetric])
  with lt have "\<lfloor>x\<rfloor> < 2 ^ (p - a)" by simp
  then have "b \<le> int (p - a)"
    unfolding b_def by (simp add: bitlen_le_iff_power)
  with ap have bp: "b + int a \<le> int p" by simp
  from fl1 have b1: "1 \<le> b"
    unfolding b_def using bitlen_eq_zero_iff [of "\<lfloor>x\<rfloor>"] bitlen_nonneg [of "\<lfloor>x\<rfloor>"] by linarith
  have il: "ilog2 x = b - 1"
    using assms(1) by (simp add: ilog2_def b_def)
  define n where "n = nat (int p - b)"
  from bp have na: "a \<le> n" by (simp add: n_def)
  have ax: "\<bar>x\<bar> = x" using assms(1) by simp
  have q: "max (ilog2 x) emin - (int p - 1) = - int n"
    using assms(4) b1 bp by (simp add: il n_def)
  have u: "pow2 (max (ilog2 x) emin - (int p - 1)) = 1 / 2 ^ n"
    unfolding q by (simp add: pow2_nonpos)
  have "x * 2 ^ n = x * 2 ^ a * 2 ^ (n - a)"
    using na by (simp add: power_add [symmetric])
  also have "\<dots> = real_of_int (m * 2 ^ (n - a))"
    by (simp add: assms(2))
  finally have xi: "x * 2 ^ n = real_of_int (m * 2 ^ (n - a))" .
  have "x / (1 / 2 ^ n) = x * 2 ^ n"
    by simp
  with xi have r: "rne (x / (1 / 2 ^ n)) = m * 2 ^ (n - a)"
    by (simp only: rne_of_int)
  have y: "real_of_int (rne (x / (1 / 2 ^ n))) * (1 / 2 ^ n) = x"
    unfolding r xi [symmetric] by simp
  have "\<not> emax < ilog2 x"
    using il bp assms(5) by simp
  with assms(1) show ?thesis
    unfolding round_to_def Let_def ax u y by simp
qed

lemma round_to_int:
  assumes "\<bar>k\<bar> < 2 ^ p" and "emin \<le> 0" and "int p \<le> emax + 1"
  shows "round_to p emin emax (real_of_int k) = Num (Fin (real_of_int k))"
proof -
  have pos: "round_to p emin emax (real_of_int j) = Num (Fin (real_of_int j))"
    if "0 < j" "j < 2 ^ p" for j
    using that assms(2,3) by (intro round_to_pos_exact [where a = 0 and m = j]) simp_all
  consider "k = 0" | "0 < k" | "k < 0" by linarith
  then show ?thesis
  proof cases
    case 1
    then show ?thesis by (simp add: round_to_def)
  next
    case 2
    with assms(1) pos [of k] show ?thesis by simp
  next
    case 3
    with assms(1) pos [of "- k"]
    have "round_to p emin emax (real_of_int (- k)) = Num (Fin (real_of_int (- k)))"
      by simp
    then have "- round_to p emin emax (real_of_int k) = Num (Fin (- real_of_int k))"
      by (simp add: round_to_minus)
    then have "- (- round_to p emin emax (real_of_int k)) = - Num (Fin (- real_of_int k))"
      by (simp only:)
    then show ?thesis by simp
  qed
qed

lemma round_to_code [code]:
  "round_to p emin emax x =
     (let n = \<lfloor>x\<rfloor>
      in if x = real_of_int n \<and> bitlen \<bar>n\<bar> \<le> int p \<and> emin \<le> 0 \<and> int p \<le> emax + 1
         then Num (Fin x)
         else if x = 0 then Num (Fin 0)
         else let u = pow2 (max (ilog2 \<bar>x\<bar>) emin - (int p - 1));
                  y = real_of_int (rne (\<bar>x\<bar> / u)) * u
              in if y \<noteq> 0 \<and> emax < ilog2 y then Num (if x < 0 then NegInf else PosInf)
                 else Num (Fin (if x < 0 then - y else y)))"
proof (cases "x = real_of_int \<lfloor>x\<rfloor> \<and> bitlen \<bar>\<lfloor>x\<rfloor>\<bar> \<le> int p \<and> emin \<le> 0
                \<and> int p \<le> emax + 1")
  case True
  then have "\<bar>\<lfloor>x\<rfloor>\<bar> < 2 ^ p" by (simp add: bitlen_le_iff_power)
  from round_to_int [OF this] True
  have "round_to p emin emax (real_of_int \<lfloor>x\<rfloor>) = Num (Fin (real_of_int \<lfloor>x\<rfloor>))"
    by simp
  with True show ?thesis by (simp add: Let_def)
next
  case False
  then show ?thesis
    unfolding round_to_def Let_def by auto
qed

lemma round64_int: "\<bar>k\<bar> < 2 ^ 53 \<Longrightarrow> int_to_float64 k = Num (Fin (real_of_int k))"
  unfolding int_to_float64_def round64_def by (rule round_to_int) simp_all

lemma max_Fin [simp]: "max (Fin a) (Fin b) = Fin (max a b)"
  by (simp add: max_def)

lemma go_int_nonneg: "0 \<le> x \<Longrightarrow> x < 2 ^ 63 \<Longrightarrow> go_int (Num (Fin x)) = \<lfloor>x\<rfloor>"
proof -
  assume x: "0 \<le> x" "x < 2 ^ 63"
  then have "\<lfloor>x\<rfloor> < 2 ^ 63" by (simp add: floor_less_iff)
  moreover from x have "0 \<le> \<lfloor>x\<rfloor>" by simp
  ultimately show ?thesis using x by (simp add: go_int_def Let_def)
qed

subsection \<open>The ef heuristic\<close>

text \<open>
  C5, as the claim states it (with the ceiling), fails: for \<open>k = 1\<close> and \<open>baseEf = 0\<close> the
  code returns \<open>int(1.5) = 1\<close>, while \<open>max 0 \<lceil>1.5\<rceil> = 2\<close>.
\<close>

theorem CalculateOptimalEf_ceiling_counterexample:
  "\<not> (\<forall>k baseEf. 1 \<le> k \<longrightarrow> 0 \<le> baseEf \<longrightarrow>
        CalculateOptimalEf k baseEf = max baseEf \<lceil>1.5 * real_of_int k\<rceil>)"
proof
  assume "\<forall>k baseEf. 1 \<le> k \<longrightarrow> 0 \<le> baseEf \<longrightarrow>
        CalculateOptimalEf k baseEf = max baseEf \<lceil>1.5 * real_of_int k\<rceil>"
  then have "CalculateOptimalEf 1 0 = max 0 \<lceil>1.5 * real_of_int 1\<rceil>"
    by simp
  moreover have "CalculateOptimalEf 1 0 = 1"
    by code_simp
  moreover have "max (0::int) \<lceil>1.5 * real_of_int 1\<rceil> = 2"
    by (simp add: ceiling_eq_iff)
  ultimately show False by simp
qed

text \<open>
  The conversions \<open>float64(k)\<close> and \<open>float64(baseEf)\<close> and the product with 1.5 are exact
  only while the numbers fit the 53 bits of a \<open>float64\<close>.  Past that the product is rounded,
  and the result can be above \<open>\<lfloor>1.5 * k\<rfloor>\<close> and below it; past \<open>2 ^ 63 / 1.5\<close> the
  conversion back to \<open>int\<close> is out of range.
\<close>

lemma CalculateOptimalEf_rounded:
  "CalculateOptimalEf 3002399751580333 0 = 4503599627370500"
  "\<lfloor>1.5 * real_of_int 3002399751580333\<rfloor> = 4503599627370499"
  "CalculateOptimalEf 9007199254740993 0 = 13510798882111488"
  "\<lfloor>1.5 * real_of_int 9007199254740993\<rfloor> = 13510798882111489"
  "CalculateOptimalEf 5 9007199254740993 = 9007199254740992"
  "CalculateOptimalEf 6148914691236517206 0 = - (2 ^ 63)"
  by code_simp+

text \<open>
  C5 (amended): for every \<open>k\<close> with \<open>1 \<le> k < 2 ^ 51\<close> and every \<open>baseEf\<close> with
  \<open>0 \<le> baseEf < 2 ^ 53\<close>, \<open>CalculateOptimalEf k baseEf = max baseEf \<lfloor>1.5 * k\<rfloor>\<close>: the
  conversion to \<open>int\<close> truncates, so the heuristic rounds \<open>1.5 * k\<close> down, not up.
\<close>

theorem CalculateOptimalEf_floor:
  assumes "1 \<le> k" and "k < 2 ^ 51" and "0 \<le> baseEf" and "baseEf < 2 ^ 53"
  shows "CalculateOptimalEf k baseEf = max baseEf \<lfloor>1.5 * real_of_int k\<rfloor>"
proof -
  have fk: "int_to_float64 k = Num (Fin (real_of_int k))"
    using assms(1,2) by (intro round64_int) simp
  have fb: "int_to_float64 baseEf = Num (Fin (real_of_int baseEf))"
    using assms(3,4) by (intro round64_int) simp
  have "round_to 53 (- 1022) 1023 (real_of_int k * 1.5) = Num (Fin (real_of_int k * 1.5))"
    using assms(1,2) by (intro round_to_pos_exact [where a = 1 and m = "3 * k"]) simp_all
  then have prod: "mul64 (int_to_float64 k) (Num (Fin 1.5)) = Num (Fin (real_of_int k * 1.5))"
    by (simp add: mul64_def fk round64_def)
  have k15: "(0::real) \<le> real_of_int k * 1.5"
    using assms by simp
  have k63: "real_of_int k * 1.5 < 2 ^ 63"
    using assms(2) by simp
  have kle: "k \<le> \<lfloor>1.5 * real_of_int k\<rfloor>"
    using assms by (simp add: le_floor_iff)
  show ?thesis
  proof (cases "baseEf > k")
    case True
    have "math_Max (int_to_float64 baseEf) (mul64 (int_to_float64 k) (Num (Fin 1.5)))
            = Num (Fin (max (real_of_int baseEf) (real_of_int k * 1.5)))"
      unfolding fb prod by (simp add: math_Max_def)
    then have "go_int (math_Max (int_to_float64 baseEf) (mul64 (int_to_float64 k) (Num (Fin 1.5))))
            = go_int (Num (Fin (max (real_of_int baseEf) (real_of_int k * 1.5))))"
      by (simp only:)
    also have "\<dots> = \<lfloor>max (real_of_int baseEf) (real_of_int k * 1.5)\<rfloor>"
      using k15 k63 assms(4) by (intro go_int_nonneg) (simp_all add: max_def)
    also have "\<dots> = max baseEf \<lfloor>1.5 * real_of_int k\<rfloor>"
      by (simp add: max_def le_floor_iff floor_le_iff mult.commute)
    finally have g: "go_int (math_Max (int_to_float64 baseEf)
                       (mul64 (int_to_float64 k) (Num (Fin 1.5))))
                     = max baseEf \<lfloor>1.5 * real_of_int k\<rfloor>" .
    show ?thesis
      unfolding CalculateOptimalEf_def Let_def by (simp only: True if_True g)
  next
    case False
    from False kle have m: "max baseEf \<lfloor>1.5 * real_of_int k\<rfloor> = \<lfloor>1.5 * real_of_int k\<rfloor>"
      by simp
    have "go_int (Num (Fin (real_of_int k * 1.5))) = \<lfloor>real_of_int k * 1.5\<rfloor>"
      using k15 k63 by (rule go_int_nonneg)
    then have g: "go_int (mul64 (int_to_float64 k) (Num (Fin 1.5))) = \<lfloor>1.5 * real_of_int k\<rfloor>"
      unfolding prod by (simp only: mult.commute)
    show ?thesis
      unfolding CalculateOptimalEf_def Let_def m by (simp only: False if_False g)
  qed
qed

theorem CalculateOptimalEf_floor_witness:
  "(1::int) \<le> 3 \<and> (3::int) < 2 ^ 51 \<and> (0::int) \<le> 2 \<and> (2::int) < 2 ^ 53
   \<and> CalculateOptimalEf 3 2 = 4"
proof -
  have "\<lfloor>1.5 * real_of_int 3\<rfloor> = (4::int)"
    by (simp add: floor_eq_iff)
  then show ?thesis
    using CalculateOptimalEf_floor [of 3 2] by simp
qed

subsection \<open>The default configuration and the level cap\<close>

lemma getRandomLevel_loop_cap:
  "level \<le> 16 \<Longrightarrow> fst (getRandomLevel_loop ml r level) \<le> 16"
proof (induction ml r level rule: getRandomLevel_loop.induct)
  case (1 ml r level)
  obtain u r' where draw: "Float64 r = (u, r')" by (cases "Float64 r")
  show ?case
  proof (cases "u < ml \<and> level < 16")
    case True
    then have "fst (getRandomLevel_loop ml r' (level + 1)) \<le> 16"
      using "1.IH" [OF draw [symmetric]] by simp
    with True draw show ?thesis
      by (subst getRandomLevel_loop.simps) simp
  next
    case False
    with draw "1.prems" show ?thesis
      by (subst getRandomLevel_loop.simps) auto
  qed
qed

lemma ln2_bounds: "1 / 2.303 < 1 / ln (2::real)"
proof -
  have "ln (2::real) \<le> 1" using ln_le_minus_one [of "2::real"] by simp
  moreover have "0 < ln (2::real)" by simp
  ultimately have "1 \<le> 1 / ln (2::real)" by (simp add: le_divide_eq_1_pos)
  moreover have "(1::real) / 2.303 < 1" by simp
  ultimately show ?thesis by linarith
qed

text \<open>
  C6: the default configuration has \<open>M = 16\<close>, \<open>MaxM0 = 32\<close>, \<open>efConstruction = 200\<close>,
  \<open>efSearch = 50\<close>, and every generated level is at most 16.  Its \<open>Ml\<close>, however, is the
  constant \<open>1.0 / 2.303\<close> (about 0.434, which is \<open>1 / ln 10\<close>), not \<open>1 / ln 2\<close> (about
  1.4427) as the claim and the comment beside the constant say.
\<close>

theorem DefaultHNSWConfig_values:
  "M DefaultHNSWConfig = 16 \<and> MaxM0 DefaultHNSWConfig = 32
   \<and> EfConstruction DefaultHNSWConfig = 200 \<and> EfSearch DefaultHNSWConfig = 50
   \<and> Ml DefaultHNSWConfig = 1000 / 2303
   \<and> Ml DefaultHNSWConfig < 1 / 2
   \<and> Ml DefaultHNSWConfig \<noteq> 1 / ln 2
   \<and> fst (getRandomLevel ml r) \<le> 16"
proof -
  have "Ml DefaultHNSWConfig < 1 / ln 2"
    using ln2_bounds by (simp add: DefaultHNSWConfig_def)
  then show ?thesis
    using getRandomLevel_loop_cap [of 0 ml r]
    by (simp add: DefaultHNSWConfig_def getRandomLevel_def)
qed

subsection \<open>List\<close>

text \<open>
  C7: the claim fails for \<open>List\<close>.  On a database with no vectors, \<open>List(-1, limit)\<close>
  panics for every \<open>limit\<close>: \<open>-1 >= len(ids)\<close> is false, and the slice expression
  \<open>ids[-1:end]\<close> is out of bounds.
\<close>

theorem List_negative_offset_panics:
  "VectorDatabase_List (db\<lparr> vectors := [] \<rparr>) it (- 1) limit = None"
  by (simp add: VectorDatabase_List_def map_keys_def go_range.simps Let_def
        word_sle_eq word_sless_alt)

subsection \<open>The entry point after Delete\<close>

text \<open>
  C2: the claim fails in both directions.  \<open>Delete\<close> calls \<open>findNewEntryPoint\<close> before it
  removes the node from the map, and \<open>findNewEntryPoint\<close> only takes a node whose level is
  greater than 0.  (1) One vector \<open>a\<close> at level 1 is inserted and deleted: the node map is
  empty, yet the entry point is still the deleted node (address 1) and \<open>maxLevel\<close> is 1.
  (2) The next \<open>Insert\<close> then panics.  (3) Two vectors at level 0 are inserted and the
  entry point \<open>a\<close> is deleted: the node map holds \<open>b\<close>, yet there is no entry point.
\<close>

theorem Delete_entry_point_not_restored:
  "map_option summary
     (after (empty_db DefaultHNSWConfig rng_level1)
        [Op_Insert (insert_req ''a'' [1, 0, 0]) 0, Op_Delete ''a''])
     = Some ([], [], Some 1, 1, [])
   \<and> after (empty_db DefaultHNSWConfig rng_level1)
        [Op_Insert (insert_req ''a'' [1, 0, 0]) 0, Op_Delete ''a'',
         Op_Insert (insert_req ''b'' [0, 1, 0]) 0]
     = None
   \<and> map_option summary
     (after (empty_db DefaultHNSWConfig rng_level0)
        [Op_Insert (insert_req ''a'' [1, 0, 0]) 0, Op_Insert (insert_req ''b'' [0, 1, 0]) 0,
         Op_Delete ''a''])
     = Some ([''b''], [''b''], None, 0, [(''b'', 2, [[]])])"
  by code_simp

subsection \<open>Symmetry of the neighbour sets\<close>

text \<open>
  C1: the claim fails where \<open>pruneConnections\<close> runs: it deletes an id from the pruned
  node's set and leaves the other direction in place.  With degree caps of 1, after
  \<open>a = [0, 0, 0]\<close>, \<open>b = [1, 0, 0]\<close> and \<open>c = [0.1, 0, 0]\<close> are inserted (all at level 0),
  layer 0 of \<open>b\<close> holds \<open>a\<close>, but layer 0 of \<open>a\<close> holds only \<open>c\<close>.
\<close>

theorem pruning_breaks_symmetry:
  "map_option summary
     (after (empty_db tight_config rng_level0)
        [Op_Insert (insert_req ''a'' [0, 0, 0]) 0, Op_Insert (insert_req ''b'' [1, 0, 0]) 0,
         Op_Insert (insert_req ''c'' [0.1, 0, 0]) 0])
     = Some ([''c'', ''b'', ''a''], [''c'', ''b'', ''a''], Some 1, 0,
             [(''c'', 3, [[''a'']]), (''b'', 2, [[''a'']]), (''a'', 1, [[''c'']])])"
  by code_simp

subsection \<open>Duplicate ids\<close>

lemma db_a_summary:
  "summary db_a = ([''a''], [''a''], Some 1, 0, [(''a'', 1, [[]])])"
  by code_simp

text \<open>
  C3, as the claim states it (for the insert of the index), fails: the index has no
  duplicate check.  On the index that holds \<open>a\<close>, a second \<open>Insert\<close> of \<open>a\<close> returns no
  error.
\<close>

theorem HNSWIndex_Insert_duplicate_counterexample:
  "\<not> (\<forall>h it ident vector metadata.
         map_of (nodes h) ident \<noteq> None \<longrightarrow>
         (\<exists>e. HNSWIndex_Insert h it ident vector metadata = Some (Some e, h)))"
proof
  assume a: "\<forall>h it ident vector metadata.
         map_of (nodes h) ident \<noteq> None \<longrightarrow>
         (\<exists>e. HNSWIndex_Insert h it ident vector metadata = Some (Some e, h))"
  have "map_of (nodes (index db_a)) ''a'' \<noteq> None"
    by code_simp
  with a obtain e where
    "HNSWIndex_Insert (index db_a) it_first ''a'' (float32s [0, 1, 0]) None = Some (Some e, index db_a)"
    by blast
  then have "map_option fst (HNSWIndex_Insert (index db_a) it_first ''a'' (float32s [0, 1, 0]) None)
               = Some (Some e)"
    by simp
  moreover have "map_option fst (HNSWIndex_Insert (index db_a) it_first ''a'' (float32s [0, 1, 0]) None)
               = Some None"
    by code_simp
  ultimately show False by simp
qed

text \<open>
  C3 (amended): the duplicate check is the facade's.  For every database and every
  request whose id is a key of the metadata map, \<open>Insert\<close> of the facade returns an error
  and the database it was given: the untyped error \<open>vector with ID ... already exists\<close>,
  or \<open>DimensionMismatchError\<close> when the vector has the wrong length (that test comes
  first).
\<close>

theorem VectorDatabase_Insert_duplicate:
  assumes "map_of (vectors db) (Vector_ID (Req_Vector req)) \<noteq> None"
  shows "VectorDatabase_Insert db it now req =
           Some (Some (if int (length (Data (Req_Vector req))) \<noteq> db_dimensions db
                       then DimensionMismatchError (db_dimensions db)
                              (int (length (Data (Req_Vector req))))
                       else Errorf (''vector with ID '' @ Vector_ID (Req_Vector req)
                                      @ '' already exists'')),
                 db)"
  using assms by (simp add: VectorDatabase_Insert_def)

theorem VectorDatabase_Insert_duplicate_witness:
  "map_of (vectors db_a) ''a'' \<noteq> None
   \<and> VectorDatabase_Insert db_a it_first 1 (insert_req ''a'' [0, 1, 0])
       = Some (Some (Errorf ''vector with ID a already exists''), db_a)"
proof -
  have present: "map_of (vectors db_a) (Vector_ID (Req_Vector (insert_req ''a'' [0, 1, 0]))) \<noteq> None"
    by code_simp
  have dims: "db_dimensions db_a = 3"
    by code_simp
  from VectorDatabase_Insert_duplicate [OF present, of it_first 1] present dims
  show ?thesis
    by (simp add: insert_req_def)
qed

subsection \<open>Search with \<open>k = 0\<close> and on an empty index\<close>

text \<open>
  C4, as the claim states it, fails for \<open>k = 0\<close>: the facade replaces \<open>k \<le> 0\<close> by 10.  On
  the database that holds \<open>a\<close>, \<open>Search\<close> with \<open>k = 0\<close> returns \<open>a\<close>.
\<close>

theorem Search_k0_counterexample:
  "\<not> (\<forall>db it q. int (length q) = db_dimensions db \<longrightarrow>
         VectorDatabase_Search db it (search_req q 0) = Some (Inr []))"
proof
  assume "\<forall>db it q. int (length q) = db_dimensions db \<longrightarrow>
         VectorDatabase_Search db it (search_req q 0) = Some (Inr [])"
  moreover have "int (length [1, 0, 0 :: real]) = db_dimensions db_a"
    by code_simp
  ultimately have "VectorDatabase_Search db_a it_first (search_req [1, 0, 0] 0) = Some (Inr [])"
    by blast
  moreover have "VectorDatabase_Search db_a it_first (search_req [1, 0, 0] 0)
                   = Some (Inr [\<lparr> Result_ID = ''a'', Score = Num (Fin 0) \<rparr>])"
    by code_simp
  ultimately show False by simp
qed

text \<open>
  C4 (amended): \<open>Search\<close> with \<open>k \<le> 0\<close> is \<open>Search\<close> with \<open>k = 10\<close>; and for every \<open>k\<close>,
  \<open>Search\<close> with a query of the configured dimension on a database whose index has no
  entry point (a new database is one) returns the empty sequence.
\<close>

theorem Search_default_k_and_empty:
  "(K req \<le> 0 \<longrightarrow>
      VectorDatabase_Search db it req = VectorDatabase_Search db it (req\<lparr> K := 10 \<rparr>))
   \<and> (int (length (Query req)) = db_dimensions db \<and> dimensions (index db) = db_dimensions db
        \<and> entryPoint (index db) = None \<longrightarrow>
      VectorDatabase_Search db it req = Some (Inr []))
   \<and> (NewVectorDatabase cfg r = Inr db \<and> int (length (Query req)) = Dimensions cfg \<longrightarrow>
      VectorDatabase_Search db it req = Some (Inr []))"
proof (intro conjI impI)
  assume "K req \<le> 0"
  then show "VectorDatabase_Search db it req = VectorDatabase_Search db it (req\<lparr> K := 10 \<rparr>)"
    by (simp add: VectorDatabase_Search_def)
next
  assume "int (length (Query req)) = db_dimensions db \<and> dimensions (index db) = db_dimensions db
        \<and> entryPoint (index db) = None"
  then show "VectorDatabase_Search db it req = Some (Inr [])"
    by (simp add: VectorDatabase_Search_def HNSWIndex_Search_def Let_def)
next
  assume "NewVectorDatabase cfg r = Inr db \<and> int (length (Query req)) = Dimensions cfg"
  then show "VectorDatabase_Search db it req = Some (Inr [])"
    by (auto simp: VectorDatabase_Search_def HNSWIndex_Search_def Let_def
          NewVectorDatabase_def NewHNSWIndex_def split: if_splits)
qed

theorem Search_default_k_and_empty_witness:
  "VectorDatabase_Search db_a it_first (search_req [1, 0, 0] (- 2))
     = VectorDatabase_Search db_a it_first (search_req [1, 0, 0] 10)
   \<and> VectorDatabase_Search (empty_db DefaultHNSWConfig rng_level0) it_first (search_req [1, 0, 0] 5)
     = Some (Inr [])"
proof -
  have k: "K (search_req [1, 0, 0] (- 2)) \<le> 0"
    by (simp add: search_req_def)
  have new: "NewVectorDatabase (example_config DefaultHNSWConfig) rng_level0
               = Inr (empty_db DefaultHNSWConfig rng_level0)
             \<and> int (length (Query (search_req [1, 0, 0] 5)))
               = Dimensions (example_config DefaultHNSWConfig)"
    by (simp add: NewVectorDatabase_def example_config_def empty_db_def search_req_def)
  from Search_default_k_and_empty
         [of "search_req [1, 0, 0] (- 2)" db_a it_first "example_config DefaultHNSWConfig" rng_level0]
       Search_default_k_and_empty
         [of "search_req [1, 0, 0] 5" "empty_db DefaultHNSWConfig rng_level0" it_first
             "example_config DefaultHNSWConfig" rng_level0]
       k new
  show ?thesis
    by (simp add: search_req_def)
qed

subsection \<open>Frame properties of the index operations\<close>

lemma payload_upd_Connections [simp]:
  "payload (st(p := (st p)\<lparr> Connections := c \<rparr>)) = payload st"
  by (rule ext) (simp add: payload_def)

lemma addConnection_payload:
  "addConnection st a b l = Some st' \<Longrightarrow> payload st' = payload st"
  by (cases a; cases b) (auto simp: addConnection_def split: if_splits)

lemma pruneConnections_frame:
  assumes "pruneConnections h it n l = Some (h', it')"
  shows "frame h' = frame h"
proof (cases n)
  case None
  with assms show ?thesis by (simp add: pruneConnections_def)
next
  case (Some p)
  with assms show ?thesis
    by (auto simp: pruneConnections_def Let_def frame_def split: if_splits option.splits)
qed

lemma frame_store_upd:
  "payload st = payload (store h) \<Longrightarrow> frame (h\<lparr> store := st \<rparr>) = frame h"
  by (simp add: frame_def)

lemma Insert_connect_frame:
  "Insert_connect h it node l ns = Some (h', it') \<Longrightarrow> frame h' = frame h"
proof (induction ns arbitrary: h it)
  case Nil
  then show ?case by simp
next
  case (Cons n ns)
  from Cons.prems obtain st1 st2 h1 it1 where
    a1: "addConnection (store h) (Some node) n l = Some st1" and
    a2: "addConnection st1 n (Some node) l = Some st2" and
    pr: "pruneConnections (h\<lparr> store := st2 \<rparr>) it n l = Some (h1, it1)" and
    rest: "Insert_connect h1 it1 node l ns = Some (h', it')"
    by (auto split: option.splits)
  have "payload st2 = payload (store h)"
    using addConnection_payload [OF a1] addConnection_payload [OF a2] by simp
  then have "frame (h\<lparr> store := st2 \<rparr>) = frame h"
    by (rule frame_store_upd)
  with pruneConnections_frame [OF pr] Cons.IH [OF rest] show ?case by simp
qed

lemma Insert_layers_frame:
  "Insert_layers h it v node ls ep = Some (h', it') \<Longrightarrow> frame h' = frame h"
proof (induction ls arbitrary: h it ep)
  case Nil
  then show ?case by simp
next
  case (Cons l ls)
  from Cons.prems obtain cands it1 sel h1 it2 where
    "Insert_connect h it1 node l sel = Some (h1, it2)" and
    rest: "Insert_layers h1 it2 v node ls sel = Some (h', it')"
    by (auto simp: Let_def split: option.splits)
  with Insert_connect_frame Cons.IH [OF rest] show ?case by simp
qed


lemma fold_max_ge: "x \<le> fold max xs (x::nat)"
  by (induction xs arbitrary: x) (auto intro: order_trans [OF max.cobounded2])

lemma fold_max_mem: "y \<in> set xs \<Longrightarrow> y \<le> fold max xs (x::nat)"
proof (induction xs arbitrary: x)
  case Nil
  then show ?case by simp
next
  case (Cons a xs)
  show ?case
  proof (cases "y = a")
    case True
    have "a \<le> max a x" by simp
    also have "\<dots> \<le> fold max xs (max a x)" by (rule fold_max_ge)
    finally show ?thesis using True by simp
  next
    case False
    with Cons show ?thesis by simp
  qed
qed

lemma new_addr_fresh:
  "map_of (nodes h) k = Some p \<Longrightarrow> p \<noteq> new_addr h"
proof -
  assume "map_of (nodes h) k = Some p"
  then have "p \<in> set (map snd (nodes h))"
    by (metis image_eqI map_of_SomeD set_map snd_conv)
  from fold_max_mem [OF this] show ?thesis
    unfolding new_addr_def by (metis Suc_n_not_le_n)
qed

lemma new_addr_not_entry: "entryPoint h \<noteq> Some (new_addr h)"
proof
  assume a: "entryPoint h = Some (new_addr h)"
  have "new_addr h \<le> fold max (map snd (nodes h)) (new_addr h)"
    by (rule fold_max_ge)
  with a show False
    unfolding new_addr_def
    by (metis Suc_n_not_le_n fold_max_ge new_addr_def option.simps(5))
qed

lemma HNSWIndex_Insert_error:
  assumes "HNSWIndex_Insert h it ident v md = Some (Some e, h')"
  shows "h' = h"
proof (cases "int (length v) \<noteq> dimensions h")
  case True
  with assms show ?thesis by (simp add: HNSWIndex_Insert_def)
next
  case False
  with assms show ?thesis
    by (simp add: HNSWIndex_Insert_def Let_def split: prod.splits option.splits)
qed

text \<open>What a successful \<open>Insert\<close> of the index changes.\<close>

lemma HNSWIndex_Insert_ok:
  assumes "HNSWIndex_Insert h it ident v md = Some (None, h')"
  shows "nodes h' = map_put ident (new_addr h) (nodes h)"
    and "\<exists>level. payload (store h') = (payload (store h))(new_addr h := (ident, v, level))"
    and "entryPoint h' = entryPoint h \<or> entryPoint h' = Some (new_addr h)"
    and "entryPoint h = None \<Longrightarrow> entryPoint h' = Some (new_addr h)"
    and "dimensions h' = dimensions h" and "distanceFunc h' = distanceFunc h"
    and "config h' = config h" and "int (length v) = dimensions h"
proof -
  from assms have dims: "int (length v) = dimensions h"
    by (auto simp: HNSWIndex_Insert_def split: if_splits)
  obtain level r where lv: "getRandomLevel (levelMultiplier h) (rng h) = (level, r)"
    by (cases "getRandomLevel (levelMultiplier h) (rng h)")
  define node where "node = new_addr h"
  define h1 where "h1 = h\<lparr> rng := r,
       store := (store h)(node := \<lparr> ID = ident, Vector = v, Connections = replicate (level + 1) [],
                                 Level = level, Metadata = md \<rparr>) \<rparr>"
  define L1 where "L1 = rev [level + 1 ..< maxLevel h1 + 1]"
  define L2 where "L2 = rev [0 ..< min level (maxLevel h1) + 1]"
  define fin :: "HNSWIndex \<Rightarrow> HNSWIndex" where "fin = (\<lambda>h2. if level > maxLevel h2
                                 then h2\<lparr> maxLevel := level, entryPoint := Some node \<rparr> else h2)"
  have step: "HNSWIndex_Insert h it ident v md =
     (case entryPoint h1 of
        None \<Rightarrow> Some (None, h1\<lparr> entryPoint := Some node,
                                nodes := map_put ident node (nodes h1), maxLevel := level \<rparr>)
      | Some e \<Rightarrow>
          (case descend h1 v L1 [Some e] it of
             None \<Rightarrow> None
           | Some (ep, it1) \<Rightarrow>
               (case Insert_layers h1 it1 v node L2 ep of
                  None \<Rightarrow> None
                | Some (h2, it2) \<Rightarrow>
                    Some (None, (fin h2)\<lparr> nodes := map_put ident node (nodes (fin h2)) \<rparr>))))"
    unfolding HNSWIndex_Insert_def Let_def h1_def node_def L1_def L2_def fin_def lv
    using dims by (simp only: simp_thms if_False prod.case)
  have f1: "frame h1 = (nodes h, entryPoint h, maxLevel h, config h, dimensions h, distanceFunc h,
                        (payload (store h))(node := (ident, v, level)))"
    by (auto simp: frame_def h1_def payload_def fun_eq_iff)
  have e1: "entryPoint h1 = entryPoint h"
    by (simp add: h1_def)
  have goal: "nodes h' = map_put ident node (nodes h)
      \<and> payload (store h') = (payload (store h))(node := (ident, v, level))
      \<and> (entryPoint h' = entryPoint h \<or> entryPoint h' = Some node)
      \<and> (entryPoint h = None \<longrightarrow> entryPoint h' = Some node)
      \<and> dimensions h' = dimensions h \<and> distanceFunc h' = distanceFunc h \<and> config h' = config h"
  proof (cases "entryPoint h1")
    case None
    with assms step have "h' = h1\<lparr> entryPoint := Some node,
                                     nodes := map_put ident node (nodes h1), maxLevel := level \<rparr>"
      by simp
    with f1 show ?thesis
      by (simp add: frame_def)
  next
    case (Some e)
    with assms step obtain ep it1 h2 it2 where
      il: "Insert_layers h1 it1 v node L2 ep = Some (h2, it2)"
      and h': "h' = (fin h2)\<lparr> nodes := map_put ident node (nodes (fin h2)) \<rparr>"
      by (auto split: option.splits)
    from Insert_layers_frame [OF il] f1 have
      f2: "frame h2 = (nodes h, entryPoint h, maxLevel h, config h, dimensions h, distanceFunc h,
                        (payload (store h))(node := (ident, v, level)))"
      by simp
    show ?thesis
      using f2 h' Some e1 by (cases "level > maxLevel h2") (simp_all add: frame_def fin_def)
  qed
  from goal show "nodes h' = map_put ident (new_addr h) (nodes h)"
    and "\<exists>level. payload (store h') = (payload (store h))(new_addr h := (ident, v, level))"
    and "entryPoint h' = entryPoint h \<or> entryPoint h' = Some (new_addr h)"
    and "entryPoint h = None \<Longrightarrow> entryPoint h' = Some (new_addr h)"
    and "dimensions h' = dimensions h" and "distanceFunc h' = distanceFunc h"
    and "config h' = config h"
    by (auto simp: node_def)
  from dims show "int (length v) = dimensions h" .
qed


lemma Delete_neighbors_payload:
  "Delete_neighbors ns ident l ks st = Some st' \<Longrightarrow> payload st' = payload st"
proof (induction ks arbitrary: st)
  case Nil
  then show ?case by simp
next
  case (Cons k ks)
  show ?case
  proof (cases "map_of ns k")
    case None
    with Cons show ?thesis by simp
  next
    case (Some q)
    with Cons.prems have
      "Delete_neighbors ns ident l ks
         (st(q := (st q)\<lparr> Connections :=
            (Connections (st q))[l := removeAll ident (Connections (st q) ! l)] \<rparr>)) = Some st'"
      by (simp split: if_splits)
    from Cons.IH [OF this] show ?thesis
      by (simp add: payload_def fun_eq_iff)
  qed
qed

lemma Delete_levels_payload:
  "Delete_levels ns ident p ls it st = Some (st', it') \<Longrightarrow> payload st' = payload st"
proof (induction ls arbitrary: st it)
  case Nil
  then show ?case by simp
next
  case (Cons l ls)
  from Cons.prems obtain st1 it1 where
    d: "Delete_neighbors ns ident l (go_range it (remdups (Connections (st p) ! l))) st = Some st1"
    and rest: "Delete_levels ns ident p ls it1 st1 = Some (st', it')"
    by (auto simp: Let_def split: if_splits option.splits)
  from Delete_neighbors_payload [OF d] Cons.IH [OF rest] show ?case by simp
qed

text \<open>
  \<open>findNewEntryPoint\<close> changes the entry point and \<open>maxLevel\<close> only; the entry point it
  leaves is nil or a node of the map.
\<close>

lemma findNewEntryPoint_fold:
  fixes h :: HNSWIndex
  defines "f \<equiv> (\<lambda>key h'. case map_of (nodes h) key of
               None \<Rightarrow> h'
             | Some p \<Rightarrow>
                 if Level (store h p) > maxLevel h'
                 then h'\<lparr> maxLevel := Level (store h p), entryPoint := Some p \<rparr>
                 else h')"
  assumes "nodes g = nodes h" "store g = store h" "config g = config h"
    "dimensions g = dimensions h" "distanceFunc g = distanceFunc h"
    "entryPoint g = None \<or> (\<exists>k q. map_of (nodes h) k = Some q \<and> entryPoint g = Some q)"
  shows "nodes (fold f ks g) = nodes h \<and> store (fold f ks g) = store h
         \<and> config (fold f ks g) = config h \<and> dimensions (fold f ks g) = dimensions h
         \<and> distanceFunc (fold f ks g) = distanceFunc h
         \<and> (entryPoint (fold f ks g) = None
             \<or> (\<exists>k q. map_of (nodes h) k = Some q \<and> entryPoint (fold f ks g) = Some q))"
  using assms(2-)
proof (induction ks arbitrary: g)
  case Nil
  then show ?case by simp
next
  case (Cons k ks)
  have "nodes (f k g) = nodes h \<and> store (f k g) = store h \<and> config (f k g) = config h
        \<and> dimensions (f k g) = dimensions h \<and> distanceFunc (f k g) = distanceFunc h
        \<and> (entryPoint (f k g) = None
            \<or> (\<exists>k' q. map_of (nodes h) k' = Some q \<and> entryPoint (f k g) = Some q))"
    using Cons.prems by (cases "map_of (nodes h) k") (auto simp: f_def)
  then show ?case
    using Cons.IH [of "f k g"] by simp
qed

lemma findNewEntryPoint_frame:
  "nodes (findNewEntryPoint h it) = nodes h \<and> store (findNewEntryPoint h it) = store h
   \<and> config (findNewEntryPoint h it) = config h
   \<and> dimensions (findNewEntryPoint h it) = dimensions h
   \<and> distanceFunc (findNewEntryPoint h it) = distanceFunc h
   \<and> (entryPoint (findNewEntryPoint h it) = None
       \<or> (\<exists>k q. map_of (nodes h) k = Some q \<and> entryPoint (findNewEntryPoint h it) = Some q))"
  unfolding findNewEntryPoint_def
  using findNewEntryPoint_fold [of "h\<lparr> entryPoint := None, maxLevel := 0 \<rparr>" h]
  by simp

lemma HNSWIndex_Delete_error:
  assumes "HNSWIndex_Delete h it ident = Some (Some e, h')"
  shows "h' = h" and "map_of (nodes h) ident = None"
  using assms
  by (auto simp: HNSWIndex_Delete_def Let_def split: option.splits)

text \<open>What a successful \<open>Delete\<close> of the index changes.\<close>

lemma HNSWIndex_Delete_ok:
  assumes "HNSWIndex_Delete h it ident = Some (None, h')"
  shows "nodes h' = map_delete ident (nodes h)"
    and "payload (store h') = payload (store h)"
    and "entryPoint h' = entryPoint h \<or> entryPoint h' = None
         \<or> (\<exists>k q. map_of (nodes h) k = Some q \<and> entryPoint h' = Some q)"
    and "dimensions h' = dimensions h" and "distanceFunc h' = distanceFunc h"
    and "config h' = config h"
proof -
  from assms obtain p st it1 where
    p: "map_of (nodes h) ident = Some p"
    and dl: "Delete_levels (nodes h) ident p [0 ..< Level (store h p) + 1] it (store h) = Some (st, it1)"
    by (auto simp: HNSWIndex_Delete_def Let_def split: option.splits)
  define h1 where "h1 = h\<lparr> store := st \<rparr>"
  define h2 where "h2 = (if entryPoint h1 = Some p then findNewEntryPoint h1 it1 else h1)"
  from assms p dl have h': "h' = h2\<lparr> nodes := map_delete ident (nodes h2) \<rparr>"
    by (auto simp: HNSWIndex_Delete_def Let_def h1_def h2_def)
  have st: "payload st = payload (store h)"
    by (rule Delete_levels_payload [OF dl])
  have h2: "nodes h2 = nodes h \<and> store h2 = st \<and> config h2 = config h
     \<and> dimensions h2 = dimensions h \<and> distanceFunc h2 = distanceFunc h
     \<and> (entryPoint h2 = entryPoint h \<or> entryPoint h2 = None
         \<or> (\<exists>k q. map_of (nodes h) k = Some q \<and> entryPoint h2 = Some q))"
  proof (cases "entryPoint h1 = Some p")
    case True
    then have "h2 = findNewEntryPoint h1 it1" by (simp add: h2_def)
    with findNewEntryPoint_frame [of h1 it1] show ?thesis
      by (simp add: h1_def)
  next
    case False
    then show ?thesis by (simp add: h2_def h1_def)
  qed
  from h2 h' st show "nodes h' = map_delete ident (nodes h)"
    and "payload (store h') = payload (store h)"
    and "entryPoint h' = entryPoint h \<or> entryPoint h' = None
         \<or> (\<exists>k q. map_of (nodes h) k = Some q \<and> entryPoint h' = Some q)"
    and "dimensions h' = dimensions h" and "distanceFunc h' = distanceFunc h"
    and "config h' = config h"
    by auto
qed

subsection \<open>The key sets of the two maps\<close>

lemma keys_map_put [simp]: "fst ` set (map_put k v m) = insert k (fst ` set m)"
  by (auto simp: map_put_def)

lemma keys_map_delete [simp]: "fst ` set (map_delete k m) = fst ` set m - {k}"
  by (auto simp: map_delete_def)

lemma map_of_map_put [simp]:
  "map_of (map_put k v m) k' = (if k' = k then Some v else map_of m k')"
  by (induction m) (auto simp: map_put_def)

lemma map_of_map_delete [simp]:
  "map_of (map_delete k m) k' = (if k' = k then None else map_of m k')"
  by (induction m) (auto simp: map_delete_def)

lemma map_of_None_keys: "map_of m k = None \<longleftrightarrow> k \<notin> fst ` set m"
  by (simp add: map_of_eq_None_iff)

text \<open>The two outcomes of \<open>Insert\<close> and of \<open>Delete\<close> of the facade.\<close>

lemma VectorDatabase_Insert_cases:
  assumes "VectorDatabase_Insert db it now req = Some (e, db')"
  obtains (failed) "e \<noteq> None" "db' = db"
  | (stored) h' where "e = None" "map_of (vectors db) (Vector_ID (Req_Vector req)) = None"
      "HNSWIndex_Insert (index db) it (Vector_ID (Req_Vector req)) (Data (Req_Vector req))
         (Req_Metadata req) = Some (None, h')"
      "db' = db\<lparr> index := h',
                  vectors := map_put (Vector_ID (Req_Vector req))
                               \<lparr> CreatedAt = now, Tags = Req_Metadata req \<rparr> (vectors db) \<rparr>"
proof (cases "int (length (Data (Req_Vector req))) \<noteq> db_dimensions db
              \<or> map_of (vectors db) (Vector_ID (Req_Vector req)) \<noteq> None")
  case True
  with assms have "e \<noteq> None \<and> db' = db"
    by (auto simp: VectorDatabase_Insert_def split: if_splits)
  then show ?thesis using failed by blast
next
  case False
  then have absent: "map_of (vectors db) (Vector_ID (Req_Vector req)) = None" by simp
  from assms False obtain e' h' where
    ins: "HNSWIndex_Insert (index db) it (Vector_ID (Req_Vector req)) (Data (Req_Vector req))
            (Req_Metadata req) = Some (e', h')"
    by (cases "HNSWIndex_Insert (index db) it (Vector_ID (Req_Vector req))
                 (Data (Req_Vector req)) (Req_Metadata req)")
       (auto simp: VectorDatabase_Insert_def)
  show ?thesis
  proof (cases e')
    case None
    with assms False ins have "e = None" and
      "db' = db\<lparr> index := h',
                  vectors := map_put (Vector_ID (Req_Vector req))
                               \<lparr> CreatedAt = now, Tags = Req_Metadata req \<rparr> (vectors db) \<rparr>"
      by (auto simp: VectorDatabase_Insert_def)
    with absent ins None show ?thesis using stored by blast
  next
    case (Some err)
    with ins have "h' = index db" by (auto dest: HNSWIndex_Insert_error)
    with assms False ins Some have "e \<noteq> None \<and> db' = db"
      by (auto simp: VectorDatabase_Insert_def)
    then show ?thesis using failed by blast
  qed
qed

lemma VectorDatabase_Delete_cases:
  assumes "VectorDatabase_Delete db it ident = Some (e, db')"
  obtains (failed) "e \<noteq> None" "db' = db"
  | (removed) h' where "e = None" "HNSWIndex_Delete (index db) it ident = Some (None, h')"
      "db' = db\<lparr> index := h', vectors := map_delete ident (vectors db) \<rparr>"
proof (cases "map_of (vectors db) ident")
  case None
  with assms have "e \<noteq> None \<and> db' = db"
    by (auto simp: VectorDatabase_Delete_def)
  then show ?thesis using failed by blast
next
  case (Some md)
  with assms obtain e' h' where del: "HNSWIndex_Delete (index db) it ident = Some (e', h')"
    by (cases "HNSWIndex_Delete (index db) it ident") (auto simp: VectorDatabase_Delete_def)
  show ?thesis
  proof (cases e')
    case None
    with assms Some del have "e = None"
      and "db' = db\<lparr> index := h', vectors := map_delete ident (vectors db) \<rparr>"
      by (auto simp: VectorDatabase_Delete_def)
    with del None show ?thesis using removed by blast
  next
    case (Some err)
    with del have "h' = index db" by (auto dest: HNSWIndex_Delete_error)
    with assms \<open>map_of (vectors db) ident = Some md\<close> del Some have "e \<noteq> None \<and> db' = db"
      by (auto simp: VectorDatabase_Delete_def)
    then show ?thesis using failed by blast
  qed
qed

lemma VectorDatabase_Insert_keys:
  assumes "VectorDatabase_Insert db it now req = Some (e, db')" "keys_agree db"
  shows "keys_agree db'"
  using assms(1)
proof (cases rule: VectorDatabase_Insert_cases)
  case failed
  with assms show ?thesis by simp
next
  case (stored h')
  from HNSWIndex_Insert_ok(1) [OF stored(3)] stored(4) assms(2) show ?thesis
    by (simp add: keys_agree_def)
qed

lemma VectorDatabase_Delete_keys:
  assumes "VectorDatabase_Delete db it ident = Some (e, db')" "keys_agree db"
  shows "keys_agree db'"
  using assms(1)
proof (cases rule: VectorDatabase_Delete_cases)
  case failed
  with assms show ?thesis by simp
next
  case (removed h')
  from HNSWIndex_Delete_ok(1) [OF removed(2)] removed(3) assms(2) show ?thesis
    by (simp add: keys_agree_def)
qed

lemma Load_entries_keys:
  "Load_entries db its clock es = Some (e, db') \<Longrightarrow> keys_agree db \<Longrightarrow> keys_agree db'"
proof (induction es arbitrary: db its clock)
  case Nil
  then show ?case by simp
next
  case (Cons x es)
  obtain ident v md where x: "x = (ident, v, md)" by (cases x)
  from Cons.prems(1) x obtain e1 h1 where
    ins: "HNSWIndex_Insert (index db) (its 0) ident (map to_float32 v) md = Some (e1, h1)"
    by (cases "HNSWIndex_Insert (index db) (its 0) ident (map to_float32 v) md") auto
  show ?case
  proof (cases e1)
    case (Some err)
    with ins have "h1 = index db" by (auto dest: HNSWIndex_Insert_error)
    with Cons.prems x ins Some show ?thesis by auto
  next
    case None
    let ?db1 = "db\<lparr> index := h1,
                      vectors := map_put ident \<lparr> CreatedAt = clock 0, Tags = md \<rparr> (vectors db) \<rparr>"
    from Cons.prems(1) x ins None have
      rest: "Load_entries ?db1 (\<lambda>n. its (Suc n)) (\<lambda>n. clock (Suc n)) es = Some (e, db')"
      by simp
    from HNSWIndex_Insert_ok(1) [OF ins [unfolded None]] Cons.prems(2) have "keys_agree ?db1"
      by (simp add: keys_agree_def)
    from Cons.IH [OF rest this] show ?thesis .
  qed
qed

lemma exec_keys:
  assumes "exec db its op = Some db'" "keys_agree db"
  shows "keys_agree db'"
proof (cases op)
  case (Op_Insert req now)
  with assms(1) obtain e where "VectorDatabase_Insert db (its 0) now req = Some (e, db')"
    by auto
  from VectorDatabase_Insert_keys [OF this assms(2)] show ?thesis .
next
  case (Op_Delete ident)
  with assms(1) obtain e where "VectorDatabase_Delete db (its 0) ident = Some (e, db')"
    by auto
  from VectorDatabase_Delete_keys [OF this assms(2)] show ?thesis .
next
  case (Op_Load vf clock)
  with assms(1) obtain e where l: "VectorDatabase_Load db its clock vf = Some (e, db')"
    by auto
  show ?thesis
  proof (cases vf)
    case (Entries es)
    with l have "Load_entries db its clock es = Some (e, db')"
      by (simp add: VectorDatabase_Load_def)
    from Load_entries_keys [OF this assms(2)] show ?thesis .
  qed (use l assms(2) in \<open>auto simp: VectorDatabase_Load_def\<close>)
qed (use assms in \<open>auto simp: VectorDatabase_Save_def\<close>)

lemma db_a_exec:
  "exec (empty_db DefaultHNSWConfig rng_level0) (\<lambda>_. it_first)
     (Op_Insert (insert_req ''a'' [1, 0, 0]) 0) = Some db_a"
proof -
  have "\<not> Option.is_none (exec (empty_db DefaultHNSWConfig rng_level0) (\<lambda>_. it_first)
                (Op_Insert (insert_req ''a'' [1, 0, 0]) 0))"
    by code_simp
  then obtain d where d: "exec (empty_db DefaultHNSWConfig rng_level0) (\<lambda>_. it_first)
                (Op_Insert (insert_req ''a'' [1, 0, 0]) 0) = Some d"
    by (auto simp: Option.is_none_def)
  then have "db_a = d"
    by (auto simp: db_a_def after_def)
  with d show ?thesis by simp
qed

text \<open>
  C10: the metadata map and the node map have the same keys in a new database, and every
  operation of the facade that returns (\<open>Insert\<close>, \<open>Search\<close>, \<open>Delete\<close>, \<open>Get\<close>, \<open>List\<close>,
  \<open>Save\<close>, \<open>Load\<close>, successful or not) takes a database where they agree to one where
  they agree; where they agree, \<open>Get\<close> never returns its \<open>DatabaseError\<close>.
\<close>

theorem key_sets_agree:
  "(NewVectorDatabase cfg r = Inr db0 \<longrightarrow> keys_agree db0)
   \<and> (keys_agree db \<and> exec db its op = Some db' \<longrightarrow> keys_agree db')
   \<and> (keys_agree db \<longrightarrow>
        VectorDatabase_Get db ident
          \<noteq> Inl (DatabaseError ''get'' (Errorf ''vector found in metadata but not in index'')))"
proof (intro conjI impI)
  assume "NewVectorDatabase cfg r = Inr db0"
  then show "keys_agree db0"
    by (auto simp: NewVectorDatabase_def NewHNSWIndex_def keys_agree_def split: if_splits)
next
  assume "keys_agree db \<and> exec db its op = Some db'"
  then show "keys_agree db'" using exec_keys by blast
next
  assume k: "keys_agree db"
  show "VectorDatabase_Get db ident
          \<noteq> Inl (DatabaseError ''get'' (Errorf ''vector found in metadata but not in index''))"
  proof (cases "map_of (vectors db) ident")
    case None
    then show ?thesis by (simp add: VectorDatabase_Get_def)
  next
    case (Some md)
    then have "ident \<in> fst ` set (vectors db)"
      by (metis map_of_None_keys option.distinct(1))
    with k have "ident \<in> fst ` set (nodes (index db))" by (simp add: keys_agree_def)
    then obtain p where "map_of (nodes (index db)) ident = Some p"
      by (metis map_of_None_keys not_Some_eq)
    with Some show ?thesis by (simp add: VectorDatabase_Get_def)
  qed
qed

theorem key_sets_agree_witness:
  "keys_agree (empty_db DefaultHNSWConfig rng_level0) \<and> keys_agree db_a
   \<and> VectorDatabase_Get db_a ''a''
        \<noteq> Inl (DatabaseError ''get'' (Errorf ''vector found in metadata but not in index''))"
proof -
  have new: "NewVectorDatabase (example_config DefaultHNSWConfig) rng_level0
               = Inr (empty_db DefaultHNSWConfig rng_level0)"
    by (simp add: NewVectorDatabase_def example_config_def empty_db_def)
  from key_sets_agree [of "example_config DefaultHNSWConfig" rng_level0
         "empty_db DefaultHNSWConfig rng_level0" "empty_db DefaultHNSWConfig rng_level0"
         "\<lambda>_. it_first" "Op_Insert (insert_req ''a'' [1, 0, 0]) 0" db_a]
       new db_a_exec
  have a: "keys_agree (empty_db DefaultHNSWConfig rng_level0)" and b: "keys_agree db_a"
    by simp_all
  from key_sets_agree [of "example_config DefaultHNSWConfig" rng_level0
         "empty_db DefaultHNSWConfig rng_level0" db_a "\<lambda>_. it_first" Op_Save db_a "''a''"] b
  show ?thesis using a b by simp
qed

subsection \<open>Insert, then Get\<close>

lemma payload_Vector: "payload st' p = payload st p \<Longrightarrow> Vector (st' p) = Vector (st p)"
  by (simp add: payload_def)

lemma HNSWIndex_Insert_other:
  assumes "HNSWIndex_Insert h it ident' v' md = Some (None, h')" "ident' \<noteq> ident"
    "map_of (nodes h) ident = Some p"
  shows "map_of (nodes h') ident = Some p" "Vector (store h' p) = Vector (store h p)"
proof -
  from HNSWIndex_Insert_ok(1) [OF assms(1)] assms(2,3)
  show "map_of (nodes h') ident = Some p" by simp
  from HNSWIndex_Insert_ok(2) [OF assms(1)] obtain level where
    "payload (store h') = (payload (store h))(new_addr h := (ident', v', level))" by blast
  moreover have "p \<noteq> new_addr h" by (rule new_addr_fresh [OF assms(3)])
  ultimately have "payload (store h') p = payload (store h) p" by simp
  then show "Vector (store h' p) = Vector (store h p)" by (rule payload_Vector)
qed

lemma HNSWIndex_Insert_new:
  assumes "HNSWIndex_Insert h it ident v md = Some (None, h')"
  shows "map_of (nodes h') ident = Some (new_addr h)" "Vector (store h' (new_addr h)) = v"
proof -
  from HNSWIndex_Insert_ok(1) [OF assms]
  show "map_of (nodes h') ident = Some (new_addr h)" by simp
  from HNSWIndex_Insert_ok(2) [OF assms] obtain level where
    "payload (store h') = (payload (store h))(new_addr h := (ident, v, level))" by blast
  then have "payload (store h') (new_addr h) = (ident, v, level)" by simp
  then show "Vector (store h' (new_addr h)) = v" by (simp add: payload_def)
qed

lemma HNSWIndex_Delete_other:
  assumes "HNSWIndex_Delete h it ident' = Some (None, h')" "ident' \<noteq> ident"
    "map_of (nodes h) ident = Some p"
  shows "map_of (nodes h') ident = Some p" "Vector (store h' p) = Vector (store h p)"
proof -
  from HNSWIndex_Delete_ok(1) [OF assms(1)] assms(2,3)
  show "map_of (nodes h') ident = Some p" by simp
  from HNSWIndex_Delete_ok(2) [OF assms(1)]
  have "payload (store h') p = payload (store h) p" by simp
  then show "Vector (store h' p) = Vector (store h p)" by (rule payload_Vector)
qed

lemma Load_entries_holds:
  "Load_entries db its clock es = Some (e, db') \<Longrightarrow> ident \<notin> fst ` set es
     \<Longrightarrow> holds db ident v \<Longrightarrow> holds db' ident v"
proof (induction es arbitrary: db its clock)
  case Nil
  then show ?case by simp
next
  case (Cons x es)
  obtain i w md where x: "x = (i, w, md)" by (cases x)
  with Cons.prems(2) have neq: "i \<noteq> ident" and notin: "ident \<notin> fst ` set es" by auto
  from Cons.prems(1) x obtain e1 h1 where
    ins: "HNSWIndex_Insert (index db) (its 0) i (map to_float32 w) md = Some (e1, h1)"
    by (cases "HNSWIndex_Insert (index db) (its 0) i (map to_float32 w) md") auto
  show ?case
  proof (cases e1)
    case (Some err)
    with ins have "h1 = index db" by (auto dest: HNSWIndex_Insert_error)
    with Cons.prems x ins Some show ?thesis by auto
  next
    case None
    let ?db1 = "db\<lparr> index := h1,
                      vectors := map_put i \<lparr> CreatedAt = clock 0, Tags = md \<rparr> (vectors db) \<rparr>"
    from Cons.prems(1) x ins None have
      rest: "Load_entries ?db1 (\<lambda>n. its (Suc n)) (\<lambda>n. clock (Suc n)) es = Some (e, db')"
      by simp
    from Cons.prems(3) obtain p where
      p: "map_of (nodes (index db)) ident = Some p" "Vector (store (index db) p) = v"
      and m: "map_of (vectors db) ident \<noteq> None"
      by (auto simp: holds_def)
    from HNSWIndex_Insert_other [OF ins [unfolded None] neq p(1)] p(2) m neq
    have "holds ?db1 ident v"
      by (simp add: holds_def)
    from Cons.IH [OF rest notin this] show ?thesis .
  qed
qed

lemma exec_holds:
  assumes "exec db its op = Some db'" "keeps ident op" "holds db ident v"
  shows "holds db' ident v"
proof -
  from assms(3) obtain p where
    p: "map_of (nodes (index db)) ident = Some p" "Vector (store (index db) p) = v"
    and m: "map_of (vectors db) ident \<noteq> None"
    by (auto simp: holds_def)
  show ?thesis
  proof (cases op)
    case (Op_Insert req now)
    with assms(1) obtain e where "VectorDatabase_Insert db (its 0) now req = Some (e, db')"
      by auto
    then show ?thesis
    proof (cases rule: VectorDatabase_Insert_cases)
      case failed
      with assms(3) show ?thesis by simp
    next
      case (stored h')
      from stored(2) m have neq: "Vector_ID (Req_Vector req) \<noteq> ident" by auto
      from HNSWIndex_Insert_other [OF stored(3) neq p(1)] p(2) m neq stored(4)
      show ?thesis by (simp add: holds_def)
    qed
  next
    case (Op_Delete i)
    with assms(2) have neq: "i \<noteq> ident" by simp
    from Op_Delete assms(1) obtain e where "VectorDatabase_Delete db (its 0) i = Some (e, db')"
      by auto
    then show ?thesis
    proof (cases rule: VectorDatabase_Delete_cases)
      case failed
      with assms(3) show ?thesis by simp
    next
      case (removed h')
      from HNSWIndex_Delete_other [OF removed(2) neq p(1)] p(2) m neq removed(3)
      show ?thesis by (simp add: holds_def)
    qed
  next
    case (Op_Load vf clock)
    with assms(1) obtain e where l: "VectorDatabase_Load db its clock vf = Some (e, db')"
      by auto
    show ?thesis
    proof (cases vf)
      case (Entries es)
      with l have le: "Load_entries db its clock es = Some (e, db')"
        by (simp add: VectorDatabase_Load_def)
      from assms(2) Op_Load Entries have "ident \<notin> fst ` set es" by simp
      from Load_entries_holds [OF le this assms(3)] show ?thesis .
    qed (use l assms(3) in \<open>auto simp: VectorDatabase_Load_def\<close>)
  qed (use assms in \<open>auto simp: VectorDatabase_Save_def\<close>)
qed

lemma run_holds:
  "run db ops = Some db' \<Longrightarrow> list_all (\<lambda>(its, op). keeps ident op) ops
     \<Longrightarrow> holds db ident v \<Longrightarrow> holds db' ident v"
proof (induction ops arbitrary: db)
  case Nil
  then show ?case by simp
next
  case (Cons x ops)
  obtain its op where x: "x = (its, op)" by (cases x)
  with Cons.prems(1) obtain db1 where
    e: "exec db its op = Some db1" and r: "run db1 ops = Some db'"
    by (auto split: option.splits)
  from Cons.prems(2) x have k: "keeps ident op" and ks: "list_all (\<lambda>(its, op). keeps ident op) ops"
    by auto
  from Cons.IH [OF r ks exec_holds [OF e k Cons.prems(3)]] show ?case .
qed

lemma db_a_Insert:
  "VectorDatabase_Insert (empty_db DefaultHNSWConfig rng_level0) it_first 0
      (insert_req ''a'' [1, 0, 0]) = Some (None, db_a)"
proof -
  from db_a_exec obtain e where
    e: "VectorDatabase_Insert (empty_db DefaultHNSWConfig rng_level0) it_first 0
          (insert_req ''a'' [1, 0, 0]) = Some (e, db_a)"
    by auto
  have "map_option fst (VectorDatabase_Insert (empty_db DefaultHNSWConfig rng_level0) it_first 0
          (insert_req ''a'' [1, 0, 0])) = Some None"
    by code_simp
  with e show ?thesis by simp
qed

lemma db_a_reloaded_run: "run db_a trace_reload_a = Some db_a_reloaded"
proof -
  have "\<not> Option.is_none (run db_a trace_reload_a)"
    by code_simp
  then show ?thesis
    by (auto simp: Option.is_none_def db_a_reloaded_def)
qed

text \<open>
  C9, as the claim states it (with only \<open>Delete\<close> of \<open>id\<close> excluded), fails: \<open>Load\<close> inserts
  the entries of its file into the index without a duplicate check and stores their
  metadata.  After \<open>Insert\<close> of \<open>a = [1, 0, 0]\<close> and a \<open>Load\<close> of a file in which \<open>a\<close> is
  \<open>[0, 5, 0]\<close>, \<open>Get\<close> of \<open>a\<close> returns \<open>[0, 5, 0]\<close>.
\<close>

theorem Insert_then_Get_Load_counterexample:
  "\<not> (\<forall>db it now req db1 ops db2.
         VectorDatabase_Insert db it now req = Some (None, db1) \<longrightarrow>
         run db1 ops = Some db2 \<longrightarrow>
         list_all (\<lambda>(its, op). op \<noteq> Op_Delete (Vector_ID (Req_Vector req))) ops \<longrightarrow>
         (\<exists>metadata. VectorDatabase_Get db2 (Vector_ID (Req_Vector req))
            = Inr (\<lparr> Vector_ID = Vector_ID (Req_Vector req), Data = Data (Req_Vector req) \<rparr>,
                   metadata)))"
proof
  assume a: "\<forall>db it now req db1 ops db2.
         VectorDatabase_Insert db it now req = Some (None, db1) \<longrightarrow>
         run db1 ops = Some db2 \<longrightarrow>
         list_all (\<lambda>(its, op). op \<noteq> Op_Delete (Vector_ID (Req_Vector req))) ops \<longrightarrow>
         (\<exists>metadata. VectorDatabase_Get db2 (Vector_ID (Req_Vector req))
            = Inr (\<lparr> Vector_ID = Vector_ID (Req_Vector req), Data = Data (Req_Vector req) \<rparr>,
                   metadata))"
  have "list_all (\<lambda>(its, op). op \<noteq> Op_Delete (Vector_ID (Req_Vector (insert_req ''a'' [1, 0, 0]))))
          trace_reload_a"
    by (simp add: trace_reload_a_def)
  with a db_a_Insert db_a_reloaded_run obtain metadata where
    "VectorDatabase_Get db_a_reloaded (Vector_ID (Req_Vector (insert_req ''a'' [1, 0, 0])))
       = Inr (\<lparr> Vector_ID = Vector_ID (Req_Vector (insert_req ''a'' [1, 0, 0])),
               Data = Data (Req_Vector (insert_req ''a'' [1, 0, 0])) \<rparr>, metadata)"
    by blast
  then have "map_sum (\<lambda>e. ()) (\<lambda>(v, m). Data v) (VectorDatabase_Get db_a_reloaded ''a'')
               = Inr (float32s [1, 0, 0])"
    by (simp add: insert_req_def)
  moreover have "map_sum (\<lambda>e. ()) (\<lambda>(v, m). Data v) (VectorDatabase_Get db_a_reloaded ''a'')
               = Inr (float32s [0, 5, 0])"
    by code_simp
  moreover have "float32s [1, 0, 0] \<noteq> float32s [0, 5, 0]"
    by code_simp
  ultimately show False by simp
qed

text \<open>
  C9 (amended): after a successful \<open>Insert\<close> of \<open>(id, v)\<close> and any sequence of facade
  operations that return, none of them a \<open>Delete\<close> of \<open>id\<close> or a \<open>Load\<close> of a file that has
  an entry for \<open>id\<close>, \<open>Get\<close> of \<open>id\<close> succeeds and returns exactly the sequence \<open>v\<close>.
\<close>

theorem Insert_then_Get:
  assumes "VectorDatabase_Insert db it now req = Some (None, db1)"
    and "run db1 ops = Some db2"
    and "list_all (\<lambda>(its, op). keeps (Vector_ID (Req_Vector req)) op) ops"
  shows "\<exists>metadata. VectorDatabase_Get db2 (Vector_ID (Req_Vector req))
           = Inr (\<lparr> Vector_ID = Vector_ID (Req_Vector req), Data = Data (Req_Vector req) \<rparr>,
                  metadata)"
proof -
  from assms(1) have "holds db1 (Vector_ID (Req_Vector req)) (Data (Req_Vector req))"
  proof (cases rule: VectorDatabase_Insert_cases)
    case failed
    then show ?thesis by simp
  next
    case (stored h')
    from HNSWIndex_Insert_new [OF stored(3)] stored(4) show ?thesis
      by (auto simp: holds_def)
  qed
  from run_holds [OF assms(2,3) this] show ?thesis
    by (auto simp: holds_def VectorDatabase_Get_def)
qed

lemma db_a_later_run: "run db_a trace_after_a = Some db_a_later"
proof -
  have "\<not> Option.is_none (run db_a trace_after_a)"
    by code_simp
  then show ?thesis
    by (auto simp: Option.is_none_def db_a_later_def)
qed

theorem Insert_then_Get_witness:
  "VectorDatabase_Insert (empty_db DefaultHNSWConfig rng_level0) it_first 0
      (insert_req ''a'' [1, 0, 0]) = Some (None, db_a)
   \<and> run db_a trace_after_a = Some db_a_later
   \<and> list_all (\<lambda>(its, op). keeps ''a'' op) trace_after_a
   \<and> (\<exists>metadata. VectorDatabase_Get db_a_later ''a''
          = Inr (\<lparr> Vector_ID = ''a'', Data = float32s [1, 0, 0] \<rparr>, metadata))"
proof -
  have k: "list_all (\<lambda>(its, op). keeps (Vector_ID (Req_Vector (insert_req ''a'' [1, 0, 0]))) op)
             trace_after_a"
    by (simp add: trace_after_a_def insert_req_def)
  from Insert_then_Get [OF db_a_Insert db_a_later_run k] k db_a_Insert db_a_later_run
  show ?thesis
    by (simp add: insert_req_def)
qed

subsection \<open>container/heap keeps the heap order\<close>

lemma parent_less: "0 < k \<Longrightarrow> parent k < k"
  by (simp add: parent_def)

lemma parent_children: "0 < c \<Longrightarrow> parent c = i \<longleftrightarrow> (c = 2 * i + 1 \<or> c = 2 * i + 2)"
  unfolding parent_def by linarith

lemma Less_key:
  "Distance (pq ! i) \<noteq> NaN \<Longrightarrow> Distance (pq ! j) \<noteq> NaN \<Longrightarrow> Less pq i j = (key pq i < key pq j)"
  by (cases "Distance (pq ! i)"; cases "Distance (pq ! j)") (simp_all add: Less_def key_def num_of_def)

lemma numeric_Less:
  "numeric pq \<Longrightarrow> i < length pq \<Longrightarrow> j < length pq \<Longrightarrow> Less pq i j = (key pq i < key pq j)"
  by (rule Less_key) (simp_all add: numeric_def)

lemma mset_Swap: "i < length pq \<Longrightarrow> j < length pq \<Longrightarrow> mset (Swap pq i j) = mset pq"
  unfolding Swap_def by (rule mset_swap)

lemma numeric_mset: "mset pq' = mset pq \<Longrightarrow> numeric pq' = numeric pq"
  unfolding numeric_def by (metis set_mset_mset)

lemma numeric_Swap: "i < length pq \<Longrightarrow> j < length pq \<Longrightarrow> numeric (Swap pq i j) = numeric pq"
  by (rule numeric_mset) (rule mset_Swap)

lemma parent_le: "parent j \<le> j"
  by (simp add: parent_def)

lemma key_Swap:
  "i < length pq \<Longrightarrow> j < length pq \<Longrightarrow>
     key (Swap pq i j) k = (if k = j then key pq i else if k = i then key pq j else key pq k)"
  by (auto simp: key_def Swap_def nth_list_update)

lemma up_heap:
  "except_up h j \<Longrightarrow> j < length h \<Longrightarrow> numeric h \<Longrightarrow> is_heap (up h j)"
proof (induction h j rule: up.induct)
  case (1 h j)
  let ?i = "parent j"
  from "1.prems"(2) parent_le [of j] have pl: "?i < length h" by simp
  note Less_key = numeric_Less [OF "1.prems"(3) "1.prems"(2) pl]
  show ?case
  proof (cases "?i = j \<or> \<not> Less h j ?i")
    case True
    have "key h (parent k) \<le> key h k" if "0 < k" "k < length h" for k
    proof (cases "k = j")
      case False
      with "1.prems"(1) that show ?thesis by (simp add: except_up_def)
    next
      case k: True
      with that parent_less [of j] have "?i \<noteq> j" by simp
      with True have "\<not> key h j < key h ?i" by (simp add: Less_key)
      with k show ?thesis by simp
    qed
    then have "is_heap h" by (simp add: is_heap_def is_heap_upto_def)
    with True show ?thesis
      by (subst up.simps) (simp add: parent_def Let_def)
  next
    case False
    then have neq: "?i \<noteq> j" and lt: "key h j < key h ?i" by (simp_all add: Less_key)
    then have jpos: "0 < j" by (auto simp: parent_def)
    then have ij: "?i < j" by (rule parent_less)
    with "1.prems"(2) have il: "?i < length h" by simp
    note ks = key_Swap [OF il "1.prems"(2)]
    from "1.prems"(1) have
      A: "\<And>k. 0 < k \<Longrightarrow> k < length h \<Longrightarrow> k \<noteq> j \<Longrightarrow> key h (parent k) \<le> key h k" and
      B: "\<And>c. c < length h \<Longrightarrow> 0 < c \<Longrightarrow> parent c = j \<Longrightarrow> key h ?i \<le> key h c"
      using jpos by (auto simp: except_up_def)
    have "except_up (Swap h ?i j) ?i"
      unfolding except_up_def
    proof (intro conjI allI impI)
      fix k assume k: "0 < k \<and> k < length (Swap h ?i j) \<and> k \<noteq> ?i"
      then have kp: "parent k < k" using parent_less by simp
      show "key (Swap h ?i j) (parent k) \<le> key (Swap h ?i j) k"
      proof (cases "k = j")
        case True
        with lt neq show ?thesis by (simp add: ks)
      next
        case kj: False
        show ?thesis
        proof (cases "parent k = j")
          case True
          with B [of k] k kj kp ij show ?thesis by (simp add: ks)
        next
          case pj: False
          show ?thesis
          proof (cases "parent k = ?i")
            case True
            with A [of k] k kj lt show ?thesis by (auto simp: ks)
          next
            case False
            with A [of k] k kj pj show ?thesis by (simp add: ks)
          qed
        qed
      qed
    next
      fix c assume c: "0 < ?i \<and> c < length (Swap h ?i j) \<and> 0 < c \<and> parent c = ?i"
      then have pi: "parent ?i < ?i" using parent_less by simp
      with ij have p1: "parent ?i \<noteq> j" "parent ?i \<noteq> ?i" by simp_all
      from A [of ?i] c il neq have gi: "key h (parent ?i) \<le> key h ?i" by simp
      show "key (Swap h ?i j) (parent ?i) \<le> key (Swap h ?i j) c"
      proof (cases "c = j")
        case True
        with gi p1 neq show ?thesis by (simp add: ks)
      next
        case False
        moreover from c have "c \<noteq> ?i" using parent_less [of c] by auto
        moreover from A [of c] c False have "key h ?i \<le> key h c" by simp
        ultimately show ?thesis using gi p1 by (simp add: ks)
      qed
    qed
    moreover have "?i < length (Swap h ?i j)" using il by simp
    moreover have "numeric (Swap h ?i j)"
      using "1.prems"(3) by (simp add: numeric_Swap [OF il "1.prems"(2)])
    ultimately have "is_heap (up (Swap h ?i j) ?i)"
      using "1.IH" [of ?i] False by (simp add: parent_def)
    with False show ?thesis
      by (subst up.simps) (simp add: parent_def Let_def)
  qed
qed


lemma down_stop:
  "n \<le> 2 * i + 1 \<Longrightarrow> down h i n = h"
  by (subst down.simps) simp

lemma down_step:
  assumes "\<not> n \<le> 2 * i + 1"
    and "j = (if 2 * i + 1 + 1 < n \<and> Less h (2 * i + 1 + 1) (2 * i + 1) then 2 * i + 1 + 1 else 2 * i + 1)"
  shows "down h i n = (if Less h j i then down (Swap h i j) j n else h)"
proof -
  have "down h i n = (if \<not> Less h j i then h else down (Swap h i j) j n)"
    unfolding assms(2) using assms(1) by (subst down.simps) (simp only: Let_def if_False)
  then show ?thesis by simp
qed

lemma down_heap:
  "except_down h i n \<Longrightarrow> n \<le> length h \<Longrightarrow> numeric h \<Longrightarrow> is_heap_upto (down h i n) n"
proof (induction h i n rule: down.induct)
  case (1 h i n)
  let ?j1 = "2 * i + 1"
  have Less_key: "Less h a b = (key h a < key h b)" if "a < n" "b < n" for a b
    using numeric_Less [OF "1.prems"(3), of a b] that "1.prems"(2) by simp
  from "1.prems"(1) have
    A: "\<And>k. 0 < k \<Longrightarrow> k < n \<Longrightarrow> parent k \<noteq> i \<Longrightarrow> key h (parent k) \<le> key h k" and
    B: "\<And>c. 0 < i \<Longrightarrow> c < n \<Longrightarrow> 0 < c \<Longrightarrow> parent c = i \<Longrightarrow> key h (parent i) \<le> key h c"
    by (auto simp: except_down_def)
  show ?case
  proof (cases "?j1 \<ge> n")
    case True
    have "key h (parent k) \<le> key h k" if "0 < k" "k < n" for k
    proof (cases "parent k = i")
      case False
      with A that show ?thesis by simp
    next
      case True
      with that(1) have "k = 2 * i + 1 \<or> k = 2 * i + 2" by (simp add: parent_children)
      with \<open>?j1 \<ge> n\<close> that(2) show ?thesis by auto
    qed
    then have "is_heap_upto h n" by (simp add: is_heap_upto_def)
    with down_stop [OF True] show ?thesis by simp
  next
    case j1: False
    define j where "j = (if ?j1 + 1 < n \<and> Less h (?j1 + 1) ?j1 then ?j1 + 1 else ?j1)"
    note step = down_step [OF j1 j_def]
    have jn: "j < n" and pj: "parent j = i" and ij: "i < j" and jpos: "0 < j"
      using j1 by (auto simp: j_def parent_def)
    have jmin: "key h j \<le> key h c" if "c < n" "0 < c" "parent c = i" for c
    proof -
      from that have "c = ?j1 \<or> c = ?j1 + 1" by (auto simp: parent_children)
      with that(1) show ?thesis by (auto simp: j_def Less_key)
    qed
    show ?thesis
    proof (cases "Less h j i")
      case False
      then have le: "key h i \<le> key h j" using jn ij by (simp add: Less_key)
      have "key h (parent k) \<le> key h k" if "0 < k" "k < n" for k
      proof (cases "parent k = i")
        case False
        with A that show ?thesis by simp
      next
        case True
        with jmin [of k] that le show ?thesis by auto
      qed
      then have "is_heap_upto h n" by (simp add: is_heap_upto_def)
      with False step show ?thesis by simp
    next
      case True
      then have lt: "key h j < key h i" using jn ij by (simp add: Less_key)
      from jn ij "1.prems"(2) have il: "i < length h" and jl: "j < length h" by simp_all
      note ks = key_Swap [OF il jl]
      have "except_down (Swap h i j) j n"
        unfolding except_down_def
      proof (intro conjI allI impI)
        fix k assume k: "0 < k \<and> k < n \<and> parent k \<noteq> j"
        then have kp: "parent k < k" using parent_less by simp
        show "key (Swap h i j) (parent k) \<le> key (Swap h i j) k"
        proof (cases "k = j")
          case True
          with lt pj ij show ?thesis by (simp add: ks)
        next
          case kj: False
          show ?thesis
          proof (cases "k = i")
            case True
            with k have ipos: "0 < i" by simp
            from B [OF ipos jn jpos pj] have "key h (parent i) \<le> key h j" .
            moreover from parent_less [OF ipos] ij have "parent i \<noteq> i" "parent i \<noteq> j" by simp_all
            ultimately show ?thesis using True ij by (simp add: ks)
          next
            case ki: False
            show ?thesis
            proof (cases "parent k = i")
              case True
              with jmin [of k] k kj ki show ?thesis by (simp add: ks)
            next
              case False
              with A [of k] k kj ki show ?thesis by (simp add: ks)
            qed
          qed
        qed
      next
        fix c assume c: "0 < j \<and> c < n \<and> 0 < c \<and> parent c = j"
        then have "j < c" using parent_less [of c] by simp
        with ij have cn: "c \<noteq> i" "c \<noteq> j" by simp_all
        from c ij have "parent c \<noteq> i" by simp
        with A [of c] c have "key h j \<le> key h c" by simp
        with cn pj ij show "key (Swap h i j) (parent j) \<le> key (Swap h i j) c"
          by (simp add: ks)
      qed
      moreover have "n \<le> length (Swap h i j)" using "1.prems"(2) by simp
      moreover have "numeric (Swap h i j)"
        using "1.prems"(3) by (simp add: numeric_Swap [OF il jl])
      ultimately have "is_heap_upto (down (Swap h i j) j n) n"
        using "1.IH" [OF refl j1 j_def] True by simp
      with True step show ?thesis by simp
    qed
  qed
qed

lemma nth_Swap_outside:
  "i < n \<Longrightarrow> j < n \<Longrightarrow> n \<le> k \<Longrightarrow> Swap pq i j ! k = pq ! k"
  by (simp add: Swap_def)

lemma mset_up: "j < length h \<Longrightarrow> mset (up h j) = mset h"
proof (induction h j rule: up.induct)
  case (1 h j)
  show ?case
  proof (cases "(j - 1) div 2 = j \<or> \<not> Less h j ((j - 1) div 2)")
    case True
    then show ?thesis by (subst up.simps) (simp add: Let_def)
  next
    case False
    have il: "(j - 1) div 2 < length h" using "1.prems" by linarith
    from False "1.IH" [OF refl] il have "mset (up (Swap h ((j - 1) div 2) j) ((j - 1) div 2))
        = mset (Swap h ((j - 1) div 2) j)"
      by simp
    with False mset_Swap [OF il "1.prems"] show ?thesis
      by (subst up.simps) (simp add: Let_def)
  qed
qed

lemma down_frame:
  "n \<le> length h \<Longrightarrow> mset (down h i n) = mset h \<and> (\<forall>k\<ge>n. down h i n ! k = h ! k)"
proof (induction h i n rule: down.induct)
  case (1 h i n)
  let ?j1 = "2 * i + 1"
  show ?case
  proof (cases "?j1 \<ge> n")
    case True
    from down_stop [OF True] show ?thesis by simp
  next
    case j1: False
    define j where "j = (if ?j1 + 1 < n \<and> Less h (?j1 + 1) ?j1 then ?j1 + 1 else ?j1)"
    note step = down_step [OF j1 j_def]
    have jn: "j < n" and ij: "i < j" using j1 by (auto simp: j_def)
    show ?thesis
    proof (cases "Less h j i")
      case False
      with step show ?thesis by simp
    next
      case True
      from jn ij "1.prems" have il: "i < length h" and jl: "j < length h" and "i < n" by simp_all
      have "mset (down (Swap h i j) j n) = mset (Swap h i j)
            \<and> (\<forall>k\<ge>n. down (Swap h i j) j n ! k = Swap h i j ! k)"
        using "1.IH" [OF refl j1 j_def] True "1.prems" by simp
      with mset_Swap [OF il jl] nth_Swap_outside [OF \<open>i < n\<close> jn]
      have "mset (down (Swap h i j) j n) = mset h
            \<and> (\<forall>k\<ge>n. down (Swap h i j) j n ! k = h ! k)"
        by simp
      moreover from True step have "down h i n = down (Swap h i j) j n" by simp
      ultimately show ?thesis by simp
    qed
  qed
qed

lemma heap_min: "is_heap h \<Longrightarrow> k < length h \<Longrightarrow> key h 0 \<le> key h k"
proof (induction k rule: less_induct)
  case (less k)
  show ?case
  proof (cases "k = 0")
    case True
    then show ?thesis by simp
  next
    case False
    then have p: "parent k < k" by (simp add: parent_less)
    from less.prems False have "key h (parent k) \<le> key h k"
      by (simp add: is_heap_def is_heap_upto_def)
    moreover from less.IH [OF p less.prems(1)] p less.prems(2) have "key h 0 \<le> key h (parent k)"
      by simp
    ultimately show ?thesis by simp
  qed
qed

lemma heap_Push_heap:
  "is_heap h \<Longrightarrow> numeric h \<Longrightarrow> Distance x \<noteq> NaN \<Longrightarrow> is_heap (heap_Push h x)"
proof -
  assume h: "is_heap h" and nm: "numeric h" "Distance x \<noteq> NaN"
  have "except_up (h @ [x]) (length h)"
    unfolding except_up_def
  proof (intro conjI allI impI)
    fix k assume k: "0 < k \<and> k < length (h @ [x]) \<and> k \<noteq> length h"
    then have "k < length h" by simp
    moreover with k have "parent k < length h" using parent_less [of k] by simp
    ultimately show "key (h @ [x]) (parent k) \<le> key (h @ [x]) k"
      using h k by (simp add: key_def nth_append is_heap_def is_heap_upto_def)
  next
    fix c assume "0 < length h \<and> c < length (h @ [x]) \<and> 0 < c \<and> parent c = length h"
    with parent_less [of c] have False by simp
    then show "key (h @ [x]) (parent (length h)) \<le> key (h @ [x]) c" ..
  qed
  moreover from nm have "numeric (h @ [x])" by (simp add: numeric_def)
  ultimately show ?thesis
    unfolding heap_Push_def by (intro up_heap) simp_all
qed

lemma mset_heap_Push: "mset (heap_Push h x) = add_mset x (mset h)"
  by (simp add: heap_Push_def mset_up)

lemma heap_Pop_heap:
  assumes "is_heap h" "heap_Pop h = Some (x, h')" "numeric h"
  shows "is_heap h'" and "mset h = add_mset x (mset h')"
    and "\<forall>y \<in> set h'. num_of (Distance x) \<le> num_of (Distance y)"
proof -
  from assms(2) have ne: "h \<noteq> []" by (auto simp: heap_Pop_def split: if_splits)
  define n where "n = length h - 1"
  define h1 where "h1 = Swap h 0 n"
  define h2 where "h2 = down h1 0 n"
  from ne have nl: "n < length h" by (simp add: n_def)
  from assms(2) ne have x: "x = last h2" and h': "h' = butlast h2"
    by (simp_all add: heap_Pop_def Let_def n_def h1_def h2_def)
  have len: "length h2 = length h" "length h1 = length h" by (simp_all add: h2_def h1_def)
  have k1: "key h1 k = (if k = n then key h 0 else if k = 0 then key h n else key h k)" for k
    unfolding h1_def using key_Swap [of 0 h n k] nl ne by simp
  have "except_down h1 0 n"
    unfolding except_down_def
  proof (intro conjI allI impI)
    fix k assume k: "0 < k \<and> k < n \<and> parent k \<noteq> 0"
    then have "parent k < n" using parent_less [of k] by simp
    with k assms(1) nl show "key h1 (parent k) \<le> key h1 k"
      by (simp add: k1 is_heap_def is_heap_upto_def)
  qed simp
  moreover have "numeric h1"
    unfolding h1_def using assms(3) nl ne by (simp add: numeric_Swap)
  ultimately have up2: "is_heap_upto h2 n"
    unfolding h2_def by (intro down_heap) (simp_all add: len n_def)
  from down_frame [of n h1 0] len nl have
    m2: "mset h2 = mset h1" and o2: "h2 ! n = h1 ! n"
    by (simp_all add: h2_def)
  have ne2: "h2 \<noteq> []" using len ne by auto
  have "last h2 = h2 ! n" using ne2 len by (simp add: last_conv_nth n_def)
  with o2 nl have xh: "x = h ! 0" by (simp add: x h1_def Swap_def nth_list_update)
  have keys': "key h' k = key h2 k" if "k < n" for k
    using that len by (simp add: key_def h' nth_butlast n_def)
  have lh': "length h' = n" by (simp add: h' len n_def)
  from up2 show "is_heap h'"
    unfolding is_heap_def is_heap_upto_def lh'
    using keys' parent_less by (metis less_trans)
  have mh: "mset h2 = mset h"
    using m2 mset_Swap [of 0 h n] nl ne by (simp add: h1_def)
  from ne2 have "h2 = h' @ [x]" by (simp add: x h')
  then have "mset h2 = add_mset x (mset h')" by simp
  with mh show mx: "mset h = add_mset x (mset h')" by simp
  show "\<forall>y \<in> set h'. num_of (Distance x) \<le> num_of (Distance y)"
  proof
    fix y assume "y \<in> set h'"
    then have "y \<in># mset h" using mx by simp
    then have "y \<in> set h" by simp
    then obtain k where "k < length h" "h ! k = y" by (auto simp: in_set_conv_nth)
    with heap_min [OF assms(1), of k] xh show "num_of (Distance x) \<le> num_of (Distance y)"
      by (simp add: key_def)
  qed
qed

subsection \<open>The order of the search results\<close>

lemma neg_le_score: "(a::score) \<le> b \<Longrightarrow> - b \<le> - a"
  by (cases a; cases b) simp_all

lemma uminus_uminus_score [simp]: "- (- (a::score)) = a"
  by (cases a) simp_all

lemma uminus_NaN_iff [simp]: "- a = NaN \<longleftrightarrow> a = NaN"
  by (cases a) simp_all

lemma NaN_uminus_iff [simp]: "NaN = - a \<longleftrightarrow> a = NaN"
  by (cases a) simp_all

lemma num_of_uminus: "a \<noteq> NaN \<Longrightarrow> num_of (- a) = - num_of a"
  by (cases a) (simp_all add: num_of_def)

lemma float_less_num: "a \<noteq> NaN \<Longrightarrow> b \<noteq> NaN \<Longrightarrow> a < b \<longleftrightarrow> num_of a < num_of b"
  by (cases a; cases b) (simp_all add: num_of_def)

lemma float_le_num: "a \<noteq> NaN \<Longrightarrow> b \<noteq> NaN \<Longrightarrow> a \<le> b \<longleftrightarrow> num_of a \<le> num_of b"
  by (cases a; cases b) (simp_all add: num_of_def)

lemma sorted_wrt_float:
  "\<forall>x \<in> set xs. x \<noteq> NaN \<Longrightarrow> sorted (map num_of xs) \<Longrightarrow> sorted_wrt (\<le>) xs"
  by (induction xs) (auto simp: float_le_num)

lemma comparable_dist:
  "scores_comparable h q \<Longrightarrow> map_of (nodes h) k = Some p \<Longrightarrow> dist_of h q p \<noteq> NaN"
  unfolding scores_comparable_def dist_of_def by (auto dest!: map_of_SomeD)

lemma w_ok_numeric: "w_ok h q w \<Longrightarrow> numeric w"
  by (auto simp: w_ok_def numeric_def item_ok_def)

lemma item_ok_numeric: "item_ok h q x \<Longrightarrow> Distance x \<noteq> NaN"
  by (auto simp: item_ok_def)

lemma w_ok_Push:
  assumes "w_ok h q w" "item_ok h q x"
  shows "w_ok h q (heap_Push w x)"
proof -
  from assms(1) have "is_heap w" by (simp add: w_ok_def)
  from heap_Push_heap [OF this w_ok_numeric [OF assms(1)] item_ok_numeric [OF assms(2)]]
  have "is_heap (heap_Push w x)" .
  moreover have "set (heap_Push w x) = insert x (set w)"
    using mset_heap_Push [of w x] by (metis set_mset_add_mset_insert set_mset_mset)
  ultimately show ?thesis using assms by (simp add: w_ok_def)
qed

lemma w_ok_Pop:
  assumes "w_ok h q w" "heap_Pop w = Some (x, w')"
  shows "w_ok h q w'"
proof -
  from assms have hp: "is_heap w" by (simp add: w_ok_def)
  note nm = w_ok_numeric [OF assms(1)]
  from heap_Pop_heap(2) [OF hp assms(2) nm] have "set w = insert x (set w')"
    by (metis set_mset_add_mset_insert set_mset_mset)
  with assms(1) heap_Pop_heap(1) [OF hp assms(2) nm] show ?thesis
    by (simp add: w_ok_def)
qed

lemma w_ok_Nil [simp]: "w_ok h q []"
  by (simp add: w_ok_def is_heap_def is_heap_upto_def)

lemma searchLayer_init_w_ok:
  "searchLayer_init h q eps c w v = Some (c', w', v') \<Longrightarrow> w_ok h q w
     \<Longrightarrow> (\<And>p. Some p \<in> set eps \<Longrightarrow> registered h p) \<Longrightarrow> scores_comparable h q
     \<Longrightarrow> w_ok h q w'"
proof (induction eps arbitrary: c w v)
  case Nil
  then show ?case by simp
next
  case (Cons e eps)
  from Cons.prems(1) obtain p where e: "e = Some p" by (cases e) auto
  let ?d = "CalculateDistance q (Vector (store h p)) (distanceFunc h)"
  let ?x = "\<lparr> Item_ID = ID (store h p), Distance = - ?d \<rparr>"
  from Cons.prems(3) [of p] e have "registered h p" by simp
  then have "item_ok h q ?x"
    using comparable_dist [OF Cons.prems(4), of "ID (store h p)" p]
    by (auto simp: item_ok_def registered_def dist_of_def)
  with Cons.prems(2) have ok: "w_ok h q (heap_Push w ?x)" by (rule w_ok_Push)
  from Cons.prems(1) e have
    "searchLayer_init h q eps (heap_Push c \<lparr> Item_ID = ID (store h p), Distance = ?d \<rparr>)
       (heap_Push w ?x) (insert (ID (store h p)) v) = Some (c', w', v')"
    by (simp add: Let_def)
  from Cons.IH [OF this ok] Cons.prems(3,4) show ?case by simp
qed

lemma searchLayer_neighbors_w_ok:
  "searchLayer_neighbors h q ef ns c w v = Some (c', w', v') \<Longrightarrow> w_ok h q w
     \<Longrightarrow> scores_comparable h q \<Longrightarrow> w_ok h q w'"
proof (induction ns arbitrary: c w v)
  case Nil
  then show ?case by simp
next
  case (Cons n ns)
  show ?case
  proof (cases "n \<in> v")
    case True
    with Cons.prems(1) have "searchLayer_neighbors h q ef ns c w v = Some (c', w', v')" by simp
    from Cons.IH [OF this Cons.prems(2,3)] show ?thesis .
  next
    case False
    from searchLayer_neighbors_live [OF Cons.prems(1) False]
    obtain p where p: "map_of (nodes h) n = Some p" by blast
    let ?d = "CalculateDistance q (Vector (store h p)) (distanceFunc h)"
    let ?x = "\<lparr> Item_ID = n, Distance = - ?d \<rparr>"
    let ?y = "\<lparr> Item_ID = n, Distance = ?d \<rparr>"
    from p have x: "item_ok h q ?x"
      using comparable_dist [OF Cons.prems(3) p] by (auto simp: item_ok_def dist_of_def)
    show ?thesis
    proof (cases "int (length w) < ef")
      case True
      with Cons.prems(1) False p have
        "searchLayer_neighbors h q ef ns (heap_Push c ?y) (heap_Push w ?x) (insert n v)
           = Some (c', w', v')"
        by (simp add: Let_def)
      from Cons.IH [OF this w_ok_Push [OF Cons.prems(2) x] Cons.prems(3)] show ?thesis .
    next
      case nf: False
      show ?thesis
      proof (cases w)
        case Nil
        with Cons.prems(1) False p nf show ?thesis by (simp add: Let_def)
      next
        case (Cons furthest ws)
        show ?thesis
        proof (cases "?d < - Distance furthest")
          case True
          show ?thesis
          proof (cases "heap_Pop w")
            case None
            with Cons.prems(1) False p nf Cons True show ?thesis by (simp add: Let_def)
          next
            case (Some a)
            obtain z w1 where a: "a = (z, w1)" by (cases a)
            with Some Cons.prems(1) False p nf Cons True have
              "searchLayer_neighbors h q ef ns (heap_Push c ?y) (heap_Push w1 ?x) (insert n v)
                 = Some (c', w', v')"
              by (simp add: Let_def)
            moreover from w_ok_Pop [OF Cons.prems(2)] Some a have "w_ok h q w1" by simp
            ultimately show ?thesis using Cons.IH w_ok_Push x Cons.prems(3) by blast
          qed
        next
          case False
          with Cons.prems(1) \<open>n \<notin> v\<close> p nf Cons have
            "searchLayer_neighbors h q ef ns c w (insert n v) = Some (c', w', v')"
            by (simp add: Let_def)
          from Cons.IH [OF this Cons.prems(2,3)] show ?thesis .
        qed
      qed
    qed
  qed
qed

lemma searchLayer_loop_step:
  assumes "heap_Pop c = Some (cur, c1)"
  shows "searchLayer_loop h q ef l it c w v =
     (if int (length w) \<ge> ef \<and> w = [] then None
      else if int (length w) \<ge> ef \<and> Distance cur > - Distance (hd w) then Some (w, it)
      else (case map_of (nodes h) (Item_ID cur) of
              None \<Rightarrow> None
            | Some p \<Rightarrow>
                if l < length (Connections (store h p))
                then (case searchLayer_neighbors h q ef
                             (go_range it (remdups (Connections (store h p) ! l))) c1 w v of
                        None \<Rightarrow> None
                      | Some (c2, w2, v2) \<Rightarrow>
                          searchLayer_loop h q ef l
                            (it_drop (length (remdups (Connections (store h p) ! l))) it) c2 w2 v2)
                else searchLayer_loop h q ef l it c1 w v))"
proof -
  from assms have "c \<noteq> []" by (auto simp: heap_Pop_def split: if_splits)
  with assms show ?thesis
    by (subst searchLayer_loop.simps) (simp only: Let_def if_False option.case prod.case)
qed

lemma searchLayer_loop_w_ok:
  "searchLayer_loop h q ef l it c w v = Some (w', it') \<Longrightarrow> w_ok h q w
     \<Longrightarrow> scores_comparable h q \<Longrightarrow> w_ok h q w'"
proof (induction "2 * card (fst ` set (nodes h) - v) + length c" arbitrary: it c w v
        rule: less_induct)
  case less
  show ?case
  proof (cases "c = []")
    case True
    with less.prems(1) have "w' = w" by (subst (asm) searchLayer_loop.simps) simp
    with less.prems(2) show ?thesis by simp
  next
    case False
    then obtain cur c1 where pop: "heap_Pop c = Some (cur, c1)"
      by (auto simp: heap_Pop_def Let_def)
    from heap_Pop_length [OF pop] False have lc: "length c1 < length c" by (cases c) auto
    note step = searchLayer_loop_step [OF pop, of h q ef l it w v]
    show ?thesis
    proof (cases "int (length w) \<ge> ef \<and> Distance cur > - Distance (hd w)")
      case True
      with less.prems(1) step have "w' = w" by (auto split: if_splits)
      with less.prems(2) show ?thesis by simp
    next
      case nb: False
      from less.prems(1) step nb obtain p where p: "map_of (nodes h) (Item_ID cur) = Some p"
        by (cases "map_of (nodes h) (Item_ID cur)") (auto split: if_splits)
      show ?thesis
      proof (cases "l < length (Connections (store h p))")
        case True
        let ?ks = "remdups (Connections (store h p) ! l)"
        from less.prems(1) step nb p True obtain c2 w2 v2 where
          nbrs: "searchLayer_neighbors h q ef (go_range it ?ks) c1 w v = Some (c2, w2, v2)"
          and rec: "searchLayer_loop h q ef l (it_drop (length ?ks) it) c2 w2 v2 = Some (w', it')"
          by (auto split: if_splits option.splits)
        from searchLayer_neighbors_measure [OF nbrs] lc have
          "2 * card (fst ` set (nodes h) - v2) + length c2
             < 2 * card (fst ` set (nodes h) - v) + length c"
          by simp
        from less.hyps [OF this rec searchLayer_neighbors_w_ok [OF nbrs less.prems(2,3)]
               less.prems(3)]
        show ?thesis .
      next
        case False
        with less.prems(1) step nb p have
          rec: "searchLayer_loop h q ef l it c1 w v = Some (w', it')"
          by (auto split: if_splits)
        from lc have "2 * card (fst ` set (nodes h) - v) + length c1
             < 2 * card (fst ` set (nodes h) - v) + length c"
          by simp
        from less.hyps [OF this rec less.prems(2,3)] show ?thesis .
      qed
    qed
  qed
qed


text \<open>
  The last loop of \<open>searchLayer\<close> pops \<open>w\<close> in ascending order of its keys and puts each
  item in front: the result lists the items of \<open>w\<close> in descending order of their keys.
\<close>

lemma searchLayer_result_sorted:
  "is_heap w \<Longrightarrow> numeric w \<Longrightarrow>
     \<exists>items. searchLayer_result h w acc = map (\<lambda>x. map_of (nodes h) (Item_ID x)) items @ acc
        \<and> sorted (rev (map (\<lambda>x. num_of (Distance x)) items)) \<and> set items = set w"
proof (induction h w acc rule: searchLayer_result.induct)
  case (1 h w acc)
  show ?case
  proof (cases "heap_Pop w")
    case None
    then have "w = []" by (auto simp: heap_Pop_def Let_def split: if_splits)
    with None show ?thesis
      by (subst searchLayer_result.simps) simp
  next
    case (Some a)
    obtain x w1 where a: "a = (x, w1)" by (cases a)
    with Some have pop: "heap_Pop w = Some (x, w1)" by simp
    from heap_Pop_heap [OF "1.prems"(1) pop "1.prems"(2)] have
      h1: "is_heap w1" and ms: "mset w = add_mset x (mset w1)"
      and mn: "\<forall>y \<in> set w1. num_of (Distance x) \<le> num_of (Distance y)"
      by simp_all
    have sw: "set w = insert x (set w1)"
      using ms by (metis set_mset_add_mset_insert set_mset_mset)
    with "1.prems"(2) have n1: "numeric w1" by (simp add: numeric_def)
    from "1.IH" [OF pop refl h1 n1] obtain items where
      r: "searchLayer_result h w1 (map_of (nodes h) (Item_ID x) # acc)
            = map (\<lambda>x. map_of (nodes h) (Item_ID x)) items @ map_of (nodes h) (Item_ID x) # acc"
      and so: "sorted (rev (map (\<lambda>x. num_of (Distance x)) items))" and st: "set items = set w1"
      by blast
    have "searchLayer_result h w acc
            = map (\<lambda>x. map_of (nodes h) (Item_ID x)) (items @ [x]) @ acc"
      using pop r by (subst searchLayer_result.simps) simp
    moreover have "sorted (rev (map (\<lambda>x. num_of (Distance x)) (items @ [x])))"
      using so mn st by simp
    moreover have "set (items @ [x]) = set w" using st sw by simp
    ultimately show ?thesis by blast
  qed
qed

lemma sorted_rev_neg:
  "sorted (rev (map (\<lambda>x. num_of (Distance x)) items))
     \<Longrightarrow> sorted (map (\<lambda>x. - num_of (Distance x)) items)"
proof (induction items)
  case Nil
  then show ?case by simp
next
  case (Cons x xs)
  from Cons.prems have s: "sorted (rev (map (\<lambda>x. num_of (Distance x)) xs))"
    and le: "\<forall>y \<in> set xs. num_of (Distance y) \<le> num_of (Distance x)"
    by (auto simp: sorted_append)
  from le have "\<forall>y \<in> set xs. - num_of (Distance x) \<le> - num_of (Distance y)"
    by (simp add: neg_le_score)
  with Cons.IH [OF s] show ?case by simp
qed

text \<open>
  What \<open>searchLayer\<close> returns, in an index whose nodes are stored under their own ids and
  from entry points that are nodes of the map: nodes of the map, in ascending order of
  their distance to the query.
\<close>

lemma searchLayer_sorted:
  assumes "searchLayer h it q eps ef l = Some (res, it')" "ids_consistent h"
    and "\<And>p. Some p \<in> set eps \<Longrightarrow> registered h p" and "scores_comparable h q"
  shows "\<exists>ps. res = map Some ps \<and> (\<forall>p \<in> set ps. registered h p)
           \<and> sorted_wrt (\<le>) (map (dist_of h q) ps)"
proof -
  from assms(1) obtain c w v w1 where
    init: "searchLayer_init h q eps [] [] {} = Some (c, w, v)"
    and loop: "searchLayer_loop h q ef l it c w v = Some (w1, it')"
    and res: "res = searchLayer_result h w1 []"
    by (auto simp: searchLayer_def split: option.splits)
  from searchLayer_init_w_ok [OF init _ assms(3,4)] have "w_ok h q w" by simp
  from searchLayer_loop_w_ok [OF loop this assms(4)] have ok: "w_ok h q w1" .
  then have "is_heap w1" by (simp add: w_ok_def)
  from searchLayer_result_sorted [OF this w_ok_numeric [OF ok], of h "[]"] res obtain items where
    r: "res = map (\<lambda>x. map_of (nodes h) (Item_ID x)) items"
    and so: "sorted (rev (map (\<lambda>x. num_of (Distance x)) items))" and st: "set items = set w1"
    by auto
  from ok st have "\<forall>x \<in> set items. \<exists>p. map_of (nodes h) (Item_ID x) = Some p
                      \<and> Distance x = - dist_of h q p \<and> dist_of h q p \<noteq> NaN"
    by (simp add: w_ok_def item_ok_def)
  then obtain f where
    f: "\<forall>x \<in> set items. map_of (nodes h) (Item_ID x) = Some (f x)
          \<and> Distance x = - dist_of h q (f x) \<and> dist_of h q (f x) \<noteq> NaN"
    by metis
  have res: "res = map Some (map f items)"
    using r f by simp
  have reg: "\<forall>p \<in> set (map f items). registered h p"
  proof
    fix p assume "p \<in> set (map f items)"
    then obtain x where "x \<in> set items" "p = f x" by auto
    with f have m: "map_of (nodes h) (Item_ID x) = Some p" by simp
    with assms(2) have "ID (store h p) = Item_ID x" by (simp add: ids_consistent_def)
    with m show "registered h p" by (simp add: registered_def)
  qed
  have "map num_of (map (dist_of h q) (map f items))
          = map (\<lambda>x. - num_of (Distance x)) items"
    using f by (simp add: num_of_uminus)
  with sorted_rev_neg [OF so] have "sorted (map num_of (map (dist_of h q) (map f items)))"
    by (simp only:)
  moreover have "\<forall>d \<in> set (map (dist_of h q) (map f items)). d \<noteq> NaN"
    using f by auto
  ultimately have "sorted_wrt (\<le>) (map (dist_of h q) (map f items))"
    by (intro sorted_wrt_float)
  with res reg show ?thesis by blast
qed

lemma descend_registered:
  "descend h q ls eps it = Some (eps', it') \<Longrightarrow> ids_consistent h
     \<Longrightarrow> (\<And>p. Some p \<in> set eps \<Longrightarrow> registered h p) \<Longrightarrow> scores_comparable h q
     \<Longrightarrow> Some p \<in> set eps' \<Longrightarrow> registered h p"
proof (induction ls arbitrary: eps it)
  case Nil
  then show ?case by simp
next
  case (Cons l ls)
  from Cons.prems(1) obtain eps1 it1 where
    s: "searchLayer h it q eps 1 l = Some (eps1, it1)"
    and d: "descend h q ls eps1 it1 = Some (eps', it')"
    by (auto split: option.splits)
  from searchLayer_sorted [OF s Cons.prems(2,3,4)] obtain ps where
    "eps1 = map Some ps" "\<forall>p \<in> set ps. registered h p"
    by blast
  then have "\<And>p. Some p \<in> set eps1 \<Longrightarrow> registered h p" by auto
  from Cons.IH [OF d Cons.prems(2) this Cons.prems(4,5)] show ?case .
qed

lemma Search_results_map:
  "Search_results h q (map Some ps)
     = Some (map (\<lambda>p. \<lparr> Result_ID = ID (store h p), Score = dist_of h q p \<rparr>) ps)"
  by (induction ps) (simp_all add: dist_of_def)

text \<open>
  \<open>Search\<close> of the index, in an index whose nodes are stored under their own ids and whose
  entry point is a node of the map.
\<close>

lemma HNSWIndex_Search_sorted:
  assumes "HNSWIndex_Search h it q k ef = Some (Inr rs)" "ids_consistent h"
    and "\<And>e. entryPoint h = Some e \<Longrightarrow> registered h e" and "scores_comparable h q"
  shows "sorted_wrt (\<le>) (map Score rs)" and "length rs \<le> nat k"
proof -
  have "sorted_wrt (\<le>) (map Score rs) \<and> length rs \<le> nat k"
  proof (cases "entryPoint h")
    case None
    with assms(1) show ?thesis
      by (auto simp: HNSWIndex_Search_def split: if_splits)
  next
    case (Some e)
    define ef' where "ef' = (if ef < k then k else ef)"
    from assms(1) Some obtain ep it1 cands it2 where
      d: "descend h q (rev [1 ..< maxLevel h + 1]) [Some e] it = Some (ep, it1)"
      and s: "searchLayer h it1 q ep ef' 0 = Some (cands, it2)"
      and r: "Search_results h q (take (nat k) cands) = Some rs"
      unfolding HNSWIndex_Search_def Let_def ef'_def
      by (auto split: if_splits option.splits)
    from assms(3) [OF Some] have "\<And>p. Some p \<in> set [Some e] \<Longrightarrow> registered h p" by simp
    from descend_registered [OF d assms(2) this assms(4)]
    have "\<And>p. Some p \<in> set ep \<Longrightarrow> registered h p" .
    from searchLayer_sorted [OF s assms(2) this assms(4)] obtain ps where
      ps: "cands = map Some ps" and so: "sorted_wrt (\<le>) (map (dist_of h q) ps)"
      by blast
    have "take (nat k) cands = map Some (take (nat k) ps)"
      by (simp add: ps take_map)
    with r have "rs = map (\<lambda>p. \<lparr> Result_ID = ID (store h p), Score = dist_of h q p \<rparr>)
                          (take (nat k) ps)"
      by (simp only: Search_results_map option.inject)
    then have "map Score rs = take (nat k) (map (dist_of h q) ps)" and "length rs \<le> nat k"
      by (simp_all add: take_map comp_def)
    with so show ?thesis by (simp add: sorted_wrt_take)
  qed
  then show "sorted_wrt (\<le>) (map Score rs)" and "length rs \<le> nat k" by simp_all
qed

subsection \<open>Reachable databases are well formed\<close>

lemma heap_Push_Nil: "heap_Push [] x = [x]"
  unfolding heap_Push_def by (subst up.simps) simp

lemma heap_Pop_single: "heap_Pop [x] = Some (x, [])"
  by (simp add: heap_Pop_def Swap_def down_stop)

text \<open>
  An entry point whose id is not in the map makes \<open>searchLayer\<close> panic: the first item
  popped is looked up in \<open>h.nodes\<close> and the nil result dereferenced.
\<close>

lemma searchLayer_dangling:
  assumes "map_of (nodes h) (ID (store h e)) = None"
  shows "searchLayer h it q [Some e] ef l = None"
proof -
  let ?d = "CalculateDistance q (Vector (store h e)) (distanceFunc h)"
  let ?y = "\<lparr> Item_ID = ID (store h e), Distance = ?d \<rparr>"
  let ?x = "\<lparr> Item_ID = ID (store h e), Distance = - ?d \<rparr>"
  have init: "searchLayer_init h q [Some e] [] [] {} = Some ([?y], [?x], {ID (store h e)})"
    by (simp add: heap_Push_Nil Let_def)
  have "searchLayer_loop h q ef l it [?y] [?x] {ID (store h e)} = None"
    using assms by (subst searchLayer_loop_step [OF heap_Pop_single]) simp
  with init show ?thesis by (simp add: searchLayer_def)
qed

lemma descend_dangling:
  assumes "map_of (nodes h) (ID (store h e)) = None"
  shows "descend h q ls [Some e] it = None \<or> descend h q ls [Some e] it = Some ([Some e], it)"
proof (cases ls)
  case Nil
  then show ?thesis by simp
next
  case (Cons l ls')
  with searchLayer_dangling [OF assms] show ?thesis by simp
qed

lemma Insert_layers_dangling:
  assumes "map_of (nodes h) (ID (store h e)) = None" "ls \<noteq> []"
  shows "Insert_layers h it v node ls [Some e] = None"
proof -
  from assms(2) obtain l ls' where "ls = l # ls'" by (cases ls) auto
  with searchLayer_dangling [OF assms(1)] show ?thesis by simp
qed

lemma HNSWIndex_Insert_step:
  assumes "int (length v) = dimensions h"
    and "getRandomLevel (levelMultiplier h) (rng h) = (level, r)"
    and "h1 = h\<lparr> rng := r,
                 store := (store h)(new_addr h :=
                   \<lparr> ID = ident, Vector = v, Connections = replicate (level + 1) [],
                     Level = level, Metadata = md \<rparr>) \<rparr>"
  shows "HNSWIndex_Insert h it ident v md =
     (case entryPoint h1 of
        None \<Rightarrow> Some (None, h1\<lparr> entryPoint := Some (new_addr h),
                                nodes := map_put ident (new_addr h) (nodes h1),
                                maxLevel := level \<rparr>)
      | Some e \<Rightarrow>
          (case descend h1 v (rev [level + 1 ..< maxLevel h1 + 1]) [Some e] it of
             None \<Rightarrow> None
           | Some (ep, it1) \<Rightarrow>
               (case Insert_layers h1 it1 v (new_addr h)
                       (rev [0 ..< min level (maxLevel h1) + 1]) ep of
                  None \<Rightarrow> None
                | Some (h2, it2) \<Rightarrow>
                    Some (None,
                      (if level > maxLevel h2
                       then h2\<lparr> maxLevel := level, entryPoint := Some (new_addr h) \<rparr> else h2)
                      \<lparr> nodes := map_put ident (new_addr h)
                          (nodes (if level > maxLevel h2
                                  then h2\<lparr> maxLevel := level, entryPoint := Some (new_addr h) \<rparr>
                                  else h2)) \<rparr>))))"
  unfolding HNSWIndex_Insert_def Let_def assms(2,3)
  using assms(1) by (simp only: simp_thms if_False prod.case)

lemma HNSWIndex_Insert_dangling:
  assumes "entryPoint h = Some e" "map_of (nodes h) (ID (store h e)) = None"
  shows "HNSWIndex_Insert h it ident v md \<noteq> Some (None, h')"
proof (cases "int (length v) = dimensions h")
  case False
  then show ?thesis by (simp add: HNSWIndex_Insert_def)
next
  case True
  obtain level r where lv: "getRandomLevel (levelMultiplier h) (rng h) = (level, r)"
    by (cases "getRandomLevel (levelMultiplier h) (rng h)")
  define h1 where "h1 = h\<lparr> rng := r,
                 store := (store h)(new_addr h :=
                   \<lparr> ID = ident, Vector = v, Connections = replicate (level + 1) [],
                     Level = level, Metadata = md \<rparr>) \<rparr>"
  define L1 where "L1 = rev [level + 1 ..< maxLevel h1 + 1]"
  define L2 where "L2 = rev [0 ..< min level (maxLevel h1) + 1]"
  note step = HNSWIndex_Insert_step [OF True lv h1_def, of it, folded L1_def L2_def]
  from assms(1) new_addr_not_entry [of h] have "e \<noteq> new_addr h" by auto
  with assms have e1: "entryPoint h1 = Some e" and d1: "map_of (nodes h1) (ID (store h1 e)) = None"
    by (simp_all add: h1_def)
  have "L2 \<noteq> []" by (simp add: L2_def)
  from Insert_layers_dangling [OF d1 this]
  have il: "Insert_layers h1 it1 v (new_addr h) L2 [Some e] = None" for it1 .
  from descend_dangling [OF d1, of v L1 it] il
  have "HNSWIndex_Insert h it ident v md = None"
    unfolding step e1 by auto
  then show ?thesis by simp
qed

lemma HNSWIndex_Search_dangling:
  assumes "entryPoint h = Some e" "map_of (nodes h) (ID (store h e)) = None"
  shows "HNSWIndex_Search h it q k ef \<noteq> Some (Inr rs)"
proof -
  define L where "L = rev [1 ..< maxLevel h + 1]"
  from descend_dangling [OF assms(2), of q L it] searchLayer_dangling [OF assms(2)]
  show ?thesis
    unfolding HNSWIndex_Search_def Let_def L_def [symmetric] assms(1)
    by (auto split: if_splits)
qed

lemma payload_ID: "payload st' p = payload st p \<Longrightarrow> ID (st' p) = ID (st p)"
  by (simp add: payload_def)

text \<open>\<open>Insert\<close> of the index under an id that is not in the map keeps the index well formed.\<close>

lemma HNSWIndex_Insert_well_formed:
  assumes ins: "HNSWIndex_Insert h it ident v md = Some (None, h')"
    and absent: "map_of (nodes h) ident = None"
    and ic: "ids_consistent h" and eo: "entry_ok h"
  shows "ids_consistent h'" and "entry_ok h'"
proof -
  let ?n = "new_addr h"
  note ok = HNSWIndex_Insert_ok [OF ins]
  from ok(2) obtain level where
    pl: "payload (store h') = (payload (store h))(?n := (ident, v, level))" by blast
  have idn: "ID (store h' ?n) = ident"
    using pl by (metis fun_upd_same fst_conv payload_def)
  have idp: "ID (store h' p) = ID (store h p)" if "p \<noteq> ?n" for p
    using pl that by (intro payload_ID) simp
  show ic': "ids_consistent h'"
    unfolding ids_consistent_def
  proof (intro allI impI)
    fix k p assume kp: "map_of (nodes h') k = Some p"
    show "ID (store h' p) = k"
    proof (cases "k = ident")
      case True
      with kp ok(1) idn show ?thesis by simp
    next
      case False
      with kp ok(1) have m: "map_of (nodes h) k = Some p" by simp
      from new_addr_fresh [OF m] idp have "ID (store h' p) = ID (store h p)" by simp
      with ic m show ?thesis by (simp add: ids_consistent_def)
    qed
  qed
  have regn: "registered h' ?n"
    using ok(1) idn by (simp add: registered_def)
  show "entry_ok h'"
  proof (cases "entryPoint h")
    case None
    from ok(4) [OF None] regn show ?thesis by (simp add: entry_ok_def)
  next
    case (Some e)
    from HNSWIndex_Insert_dangling [OF Some, of it ident v md h'] ins
    have "map_of (nodes h) (ID (store h e)) \<noteq> None" by auto
    with eo Some have re: "registered h e" by (simp add: entry_ok_def)
    from Some new_addr_not_entry [of h] have en: "e \<noteq> ?n" by auto
    from re absent have "ID (store h e) \<noteq> ident" by (auto simp: registered_def)
    with re ok(1) idp [OF en] have "registered h' e" by (simp add: registered_def)
    with ok(3) Some regn show ?thesis by (auto simp: entry_ok_def)
  qed
qed

lemma HNSWIndex_Delete_well_formed:
  assumes del: "HNSWIndex_Delete h it ident = Some (None, h')"
    and ic: "ids_consistent h" and eo: "entry_ok h"
  shows "ids_consistent h'" and "entry_ok h'"
proof -
  note ok = HNSWIndex_Delete_ok [OF del]
  have idp: "ID (store h' p) = ID (store h p)" for p
    using ok(2) by (intro payload_ID) simp
  show "ids_consistent h'"
    using ic ok(1) idp by (auto simp: ids_consistent_def split: if_splits)
  have keep: "map_of (nodes h') (ID (store h' p)) = None \<or> registered h' p"
    if "map_of (nodes h) (ID (store h p)) = None \<or> registered h p" for p
    using that ok(1) idp by (auto simp: registered_def)
  from ok(3) consider "entryPoint h' = entryPoint h" | "entryPoint h' = None"
    | k q where "map_of (nodes h) k = Some q" "entryPoint h' = Some q"
    by auto
  then show "entry_ok h'"
  proof cases
    case 1
    show ?thesis
    proof (cases "entryPoint h")
      case None
      with 1 show ?thesis by (simp add: entry_ok_def)
    next
      case (Some e)
      with eo have "map_of (nodes h) (ID (store h e)) = None \<or> registered h e"
        by (simp add: entry_ok_def)
      from keep [OF this] 1 Some show ?thesis by (simp add: entry_ok_def)
    qed
  next
    case 2
    then show ?thesis by (simp add: entry_ok_def)
  next
    case 3
    from ic 3(1) have "registered h q" by (simp add: ids_consistent_def registered_def)
    with keep [of q] 3(2) show ?thesis by (simp add: entry_ok_def)
  qed
qed


lemma keys_agree_absent:
  "keys_agree db \<Longrightarrow> map_of (vectors db) k = None \<Longrightarrow> map_of (nodes (index db)) k = None"
  by (simp add: keys_agree_def map_of_None_keys)

lemma VectorDatabase_Insert_well_formed:
  assumes "VectorDatabase_Insert db it now req = Some (e, db')" "well_formed db"
  shows "well_formed db'"
  using assms(1)
proof (cases rule: VectorDatabase_Insert_cases)
  case failed
  with assms show ?thesis by simp
next
  case (stored h')
  from assms(2) have k: "keys_agree db" and ic: "ids_consistent (index db)"
    and eo: "entry_ok (index db)"
    by (simp_all add: well_formed_def)
  from HNSWIndex_Insert_well_formed [OF stored(3) keys_agree_absent [OF k stored(2)] ic eo]
    VectorDatabase_Insert_keys [OF assms(1) k] stored(4)
  show ?thesis by (simp add: well_formed_def)
qed

lemma VectorDatabase_Delete_well_formed:
  assumes "VectorDatabase_Delete db it ident = Some (e, db')" "well_formed db"
  shows "well_formed db'"
  using assms(1)
proof (cases rule: VectorDatabase_Delete_cases)
  case failed
  with assms show ?thesis by simp
next
  case (removed h')
  from assms(2) have k: "keys_agree db" and ic: "ids_consistent (index db)"
    and eo: "entry_ok (index db)"
    by (simp_all add: well_formed_def)
  from HNSWIndex_Delete_well_formed [OF removed(2) ic eo]
    VectorDatabase_Delete_keys [OF assms(1) k] removed(3)
  show ?thesis by (simp add: well_formed_def)
qed

lemma Load_entries_well_formed:
  "Load_entries db its clock es = Some (e, db') \<Longrightarrow> well_formed db
     \<Longrightarrow> distinct (map fst es) \<Longrightarrow> fst ` set es \<inter> fst ` set (vectors db) = {}
     \<Longrightarrow> well_formed db'"
proof (induction es arbitrary: db its clock)
  case Nil
  then show ?case by simp
next
  case (Cons x es)
  obtain i w md where x: "x = (i, w, md)" by (cases x)
  from Cons.prems(1) x obtain e1 h1 where
    ins: "HNSWIndex_Insert (index db) (its 0) i (map to_float32 w) md = Some (e1, h1)"
    by (cases "HNSWIndex_Insert (index db) (its 0) i (map to_float32 w) md") auto
  from Cons.prems(2) have k: "keys_agree db" and ic: "ids_consistent (index db)"
    and eo: "entry_ok (index db)"
    by (simp_all add: well_formed_def)
  show ?case
  proof (cases e1)
    case (Some err)
    with ins have "h1 = index db" by (auto dest: HNSWIndex_Insert_error)
    with Cons.prems x ins Some show ?thesis by auto
  next
    case None
    let ?db1 = "db\<lparr> index := h1,
                      vectors := map_put i \<lparr> CreatedAt = clock 0, Tags = md \<rparr> (vectors db) \<rparr>"
    from Cons.prems(1) x ins None have
      rest: "Load_entries ?db1 (\<lambda>n. its (Suc n)) (\<lambda>n. clock (Suc n)) es = Some (e, db')"
      by simp
    from Cons.prems(4) x have "i \<notin> fst ` set (vectors db)" by auto
    then have "map_of (vectors db) i = None" by (simp add: map_of_None_keys)
    from keys_agree_absent [OF k this] have absent: "map_of (nodes (index db)) i = None" .
    from HNSWIndex_Insert_ok(1) [OF ins [unfolded None]] k have "keys_agree ?db1"
      by (simp add: keys_agree_def)
    with HNSWIndex_Insert_well_formed [OF ins [unfolded None] absent ic eo]
    have wf1: "well_formed ?db1" by (simp add: well_formed_def)
    from Cons.prems(3,4) x have "distinct (map fst es)"
      and "fst ` set es \<inter> fst ` set (vectors ?db1) = {}"
      by auto
    from Cons.IH [OF rest wf1 this] show ?thesis .
  qed
qed

lemma exec_well_formed:
  assumes "exec db its op = Some db'" "loads_fresh db op" "well_formed db"
  shows "well_formed db'"
proof (cases op)
  case (Op_Insert req now)
  with assms(1) obtain e where "VectorDatabase_Insert db (its 0) now req = Some (e, db')"
    by auto
  from VectorDatabase_Insert_well_formed [OF this assms(3)] show ?thesis .
next
  case (Op_Delete ident)
  with assms(1) obtain e where "VectorDatabase_Delete db (its 0) ident = Some (e, db')"
    by auto
  from VectorDatabase_Delete_well_formed [OF this assms(3)] show ?thesis .
next
  case (Op_Load vf clock)
  with assms(1) obtain e where l: "VectorDatabase_Load db its clock vf = Some (e, db')"
    by auto
  show ?thesis
  proof (cases vf)
    case (Entries es)
    with l have le: "Load_entries db its clock es = Some (e, db')"
      by (simp add: VectorDatabase_Load_def)
    from assms(2) Op_Load Entries have "distinct (map fst es)"
      and "fst ` set es \<inter> fst ` set (vectors db) = {}"
      by simp_all
    from Load_entries_well_formed [OF le assms(3) this] show ?thesis .
  qed (use l assms(3) in \<open>auto simp: VectorDatabase_Load_def\<close>)
qed (use assms in \<open>auto simp: VectorDatabase_Save_def\<close>)

lemma reachable_well_formed: "reachable db \<Longrightarrow> well_formed db"
proof (induction rule: reachable.induct)
  case (new cfg r db)
  then show ?case
    by (auto simp: NewVectorDatabase_def NewHNSWIndex_def well_formed_def keys_agree_def
          ids_consistent_def entry_ok_def split: if_splits)
next
  case (step db op its db')
  from exec_well_formed [OF step.hyps(3) step.hyps(2) step.IH] show ?case .
qed

lemma reachable_run:
  "reachable db \<Longrightarrow> run db ops = Some db'
     \<Longrightarrow> list_all (\<lambda>(its, op). \<forall>vf clock. op \<noteq> Op_Load vf clock) ops \<Longrightarrow> reachable db'"
proof (induction ops arbitrary: db)
  case Nil
  then show ?case by simp
next
  case (Cons x ops)
  obtain its op where x: "x = (its, op)" by (cases x)
  with Cons.prems(2) obtain db1 where
    e: "exec db its op = Some db1" and r: "run db1 ops = Some db'"
    by (auto split: option.splits)
  from Cons.prems(3) x have nl: "\<forall>vf clock. op \<noteq> Op_Load vf clock"
    and rest: "list_all (\<lambda>(its, op). \<forall>vf clock. op \<noteq> Op_Load vf clock) ops"
    by auto
  from nl have "loads_fresh db op" by (cases op) auto
  from reachable.step [OF Cons.prems(1) this e] have "reachable db1" .
  from Cons.IH [OF this r rest] show ?case .
qed

lemma reachable_db_a: "reachable db_a"
proof -
  have "reachable (empty_db DefaultHNSWConfig rng_level0)"
    by (rule reachable.new [of "example_config DefaultHNSWConfig" rng_level0])
       (simp add: NewVectorDatabase_def example_config_def empty_db_def)
  from reachable.step [OF this _ db_a_exec] show ?thesis by simp
qed

lemma db_abc_run: "run db_a trace_b_c = Some db_abc"
proof -
  have "\<not> Option.is_none (run db_a trace_b_c)"
    by code_simp
  then show ?thesis
    by (auto simp: Option.is_none_def db_abc_def)
qed

lemma reachable_db_abc: "reachable db_abc"
  by (rule reachable_run [OF reachable_db_a db_abc_run]) (simp add: trace_b_c_def)

lemma Search_results_length:
  "Search_results h q cs = Some rs \<Longrightarrow> length rs = length cs"
  by (induction cs arbitrary: rs) (auto split: option.splits)

lemma HNSWIndex_Search_length:
  assumes "HNSWIndex_Search h it q k ef = Some (Inr rs)"
  shows "length rs \<le> nat k"
proof (cases "entryPoint h")
  case None
  with assms show ?thesis
    by (auto simp: HNSWIndex_Search_def split: if_splits)
next
  case (Some e)
  with assms obtain cands where "Search_results h q (take (nat k) cands) = Some rs"
    unfolding HNSWIndex_Search_def Let_def
    by (auto split: if_splits option.splits)
  from Search_results_length [OF this] show ?thesis by simp
qed

lemma db_dot_run: "run empty_dot_db trace_dot = Some db_dot"
proof -
  have "\<not> Option.is_none (run empty_dot_db trace_dot)"
    by code_simp
  then show ?thesis
    by (auto simp: Option.is_none_def db_dot_def)
qed

lemma reachable_db_dot: "reachable db_dot"
proof -
  have "reachable empty_dot_db"
    by (rule reachable.new [of dot_config rng_level0])
       (simp add: NewVectorDatabase_def dot_config_def empty_dot_db_def)
  from reachable_run [OF this db_dot_run] show ?thesis
    by (simp add: trace_dot_def)
qed

text \<open>
  C8, as the claim states it (at most \<open>k\<close> results in non-decreasing order of their
  scores, for every database state), fails in three ways.

  \<^item> \<open>Search\<close> of the facade replaces \<open>k \<le> 0\<close> by 10: on the database that holds \<open>a\<close>, \<open>b\<close>
    and \<open>c\<close>, \<open>k = 0\<close> returns three results.
  \<^item> \<open>Load\<close> inserts an id that the database holds a second time: the new node replaces
    the old one in \<open>h.nodes\<close>, while the entry point stays the old node.  After \<open>Insert\<close> of
    \<open>a = [1, 0, 0]\<close> and \<open>b = [0, 1, 0]\<close> and a \<open>Load\<close> of a file in which \<open>a\<close> is
    \<open>[0, 5, 0]\<close>, \<open>Search\<close> of \<open>[1, 0, 0]\<close> with \<open>k = 2\<close> ranks \<open>a\<close> by the old vector
    (distance 0) and reports it with the new one: the scores are 6 and 2.
  \<^item> A distance can be NaN, and every comparison with NaN is false, so the heaps of
    \<open>searchLayer\<close> lose their order.  In the database \<open>db_dot\<close> the query
    \<open>[2 ^ 64, 2 ^ 64]\<close> has the distance \<open>- (\<infinity> - \<infinity>)\<close> to \<open>b\<close>.  Where \<open>range\<close> visits the
    neighbours of \<open>a\<close> in the order \<open>b\<close>, \<open>c\<close>, \<open>d\<close>, the scores of \<open>Search\<close> with \<open>k = 4\<close>
    are NaN, \<open>- 3 * 2 ^ 64\<close>, \<open>2 ^ 64\<close>, \<open>- 2 ^ 64\<close>.
\<close>

theorem Search_bound_and_order_counterexample:
  "\<not> (\<forall>db it req rs.
         VectorDatabase_Search db it req = Some (Inr rs) \<longrightarrow> length rs \<le> nat (K req))
   \<and> \<not> (\<forall>db it req rs.
         scores_comparable (index db) (Query req) \<longrightarrow>
         VectorDatabase_Search db it req = Some (Inr rs) \<longrightarrow> sorted_wrt (\<le>) (map Score rs))
   \<and> \<not> (\<forall>db it req rs.
         reachable db \<longrightarrow>
         VectorDatabase_Search db it req = Some (Inr rs) \<longrightarrow> sorted_wrt (\<le>) (map Score rs))"
proof (intro conjI notI)
  assume "\<forall>db it req rs.
         VectorDatabase_Search db it req = Some (Inr rs) \<longrightarrow> length rs \<le> nat (K req)"
  moreover have "VectorDatabase_Search db_abc it_first (search_req [1, 0, 0] 0)
       = Some (Inr [\<lparr> Result_ID = ''a'', Score = Num (Fin 0) \<rparr>,
                    \<lparr> Result_ID = ''c'', Score = Num (Fin 1) \<rparr>,
                    \<lparr> Result_ID = ''b'', Score = Num (Fin 2) \<rparr>])"
    by code_simp
  ultimately have "length [\<lparr> Result_ID = ''a'', Score = Num (Fin 0) \<rparr>,
                           \<lparr> Result_ID = ''c'', Score = Num (Fin 1) \<rparr>,
                           \<lparr> Result_ID = ''b'', Score = Num (Fin 2) \<rparr>]
                     \<le> nat (K (search_req [1, 0, 0] 0))"
    by blast
  then show False by (simp add: search_req_def)
next
  assume "\<forall>db it req rs.
         scores_comparable (index db) (Query req) \<longrightarrow>
         VectorDatabase_Search db it req = Some (Inr rs) \<longrightarrow> sorted_wrt (\<le>) (map Score rs)"
  moreover have "scores_comparable (index db_ab_reloaded) (Query (search_req [1, 0, 0] 2))"
    by code_simp
  moreover have "VectorDatabase_Search db_ab_reloaded it_first (search_req [1, 0, 0] 2)
       = Some (Inr [\<lparr> Result_ID = ''a'', Score = Num (Fin 6) \<rparr>,
                    \<lparr> Result_ID = ''b'', Score = Num (Fin 2) \<rparr>])"
    by code_simp
  ultimately have "sorted_wrt (\<le>) (map Score [\<lparr> Result_ID = ''a'', Score = Num (Fin 6) \<rparr>,
                                              \<lparr> Result_ID = ''b'', Score = Num (Fin 2) \<rparr>])"
    by blast
  then show False by simp
next
  assume "\<forall>db it req rs.
         reachable db \<longrightarrow>
         VectorDatabase_Search db it req = Some (Inr rs) \<longrightarrow> sorted_wrt (\<le>) (map Score rs)"
  moreover have "VectorDatabase_Search db_dot it_first (search_req [2 ^ 64, 2 ^ 64] 4)
       = Some (Inr [\<lparr> Result_ID = ''b'', Score = NaN \<rparr>,
                    \<lparr> Result_ID = ''c'', Score = Num (Fin (- (3 * 2 ^ 64))) \<rparr>,
                    \<lparr> Result_ID = ''d'', Score = Num (Fin (2 ^ 64)) \<rparr>,
                    \<lparr> Result_ID = ''a'', Score = Num (Fin (- (2 ^ 64))) \<rparr>])"
    by code_simp
  ultimately have "sorted_wrt (\<le>) (map Score
                     [\<lparr> Result_ID = ''b'', Score = NaN \<rparr>,
                      \<lparr> Result_ID = ''c'', Score = Num (Fin (- (3 * 2 ^ 64))) \<rparr>,
                      \<lparr> Result_ID = ''d'', Score = Num (Fin (2 ^ 64)) \<rparr>,
                      \<lparr> Result_ID = ''a'', Score = Num (Fin (- (2 ^ 64))) \<rparr>])"
    using reachable_db_dot by blast
  then show False by simp
qed

text \<open>
  C8 (amended).  A \<open>Search\<close> of the index that returns results returns at most \<open>k\<close> of
  them, and a \<open>Search\<close> of the facade at most the \<open>k\<close> it passes on (the request's \<open>k\<close>, or
  10 when that is not positive), in every state.  The scores are in non-decreasing order
  (each \<open><=\<close> the later ones, as Go compares \<open>float32\<close>s) where the database was reached from
  a new one by operations of the facade (a \<open>Load\<close> only of entries with distinct ids that
  the database does not hold) and no distance from the query to a vector of the index is
  NaN.
\<close>

theorem Search_at_most_k_sorted:
  "(HNSWIndex_Search (index db) it q k ef = Some (Inr rs) \<longrightarrow>
      length rs \<le> nat k
      \<and> (reachable db \<and> scores_comparable (index db) q \<longrightarrow> sorted_wrt (\<le>) (map Score rs)))
   \<and> (VectorDatabase_Search db it req = Some (Inr rs') \<longrightarrow>
      length rs' \<le> nat (if K req \<le> 0 then 10 else K req)
      \<and> (reachable db \<and> scores_comparable (index db) (Query req) \<longrightarrow>
           sorted_wrt (\<le>) (map Score rs')))"
proof -
  have idx: "sorted_wrt (\<le>) (map Score rs)"
    if s: "HNSWIndex_Search (index db) it q k ef = Some (Inr rs)"
      and r: "reachable db" and c: "scores_comparable (index db) q" for q k ef rs
  proof -
    from reachable_well_formed [OF r] have ic: "ids_consistent (index db)"
      and eo: "entry_ok (index db)"
      by (simp_all add: well_formed_def)
    have "registered (index db) e" if e: "entryPoint (index db) = Some e" for e
    proof -
      from HNSWIndex_Search_dangling [OF e, of it q k ef rs] s
      have "map_of (nodes (index db)) (ID (store (index db) e)) \<noteq> None" by auto
      with eo e show ?thesis by (simp add: entry_ok_def)
    qed
    from HNSWIndex_Search_sorted(1) [OF s ic this c] show ?thesis .
  qed
  show ?thesis
  proof (intro conjI impI)
    assume "HNSWIndex_Search (index db) it q k ef = Some (Inr rs)"
    then show "length rs \<le> nat k" by (rule HNSWIndex_Search_length)
  next
    assume "HNSWIndex_Search (index db) it q k ef = Some (Inr rs)"
      and "reachable db \<and> scores_comparable (index db) q"
    then show "sorted_wrt (\<le>) (map Score rs)" using idx by blast
  next
    assume a: "VectorDatabase_Search db it req = Some (Inr rs')"
    define k' where "k' = (if K req \<le> 0 then 10 else K req)"
    from a have "HNSWIndex_Search (index db) it (Query req) k'
                   (CalculateOptimalEf k' (EfSearch (Cfg_HNSWConfig (db_config db))))
                 = Some (Inr rs')"
      by (auto simp: VectorDatabase_Search_def Let_def k'_def split: if_splits)
    from HNSWIndex_Search_length [OF this]
    show "length rs' \<le> nat (if K req \<le> 0 then 10 else K req)"
      by (simp add: k'_def)
  next
    assume a: "VectorDatabase_Search db it req = Some (Inr rs')"
      and b: "reachable db \<and> scores_comparable (index db) (Query req)"
    define k' where "k' = (if K req \<le> 0 then 10 else K req)"
    from a have "HNSWIndex_Search (index db) it (Query req) k'
                   (CalculateOptimalEf k' (EfSearch (Cfg_HNSWConfig (db_config db))))
                 = Some (Inr rs')"
      by (auto simp: VectorDatabase_Search_def Let_def k'_def split: if_splits)
    with b show "sorted_wrt (\<le>) (map Score rs')" using idx by blast
  qed
qed

theorem Search_at_most_k_sorted_witness:
  "reachable db_abc
   \<and> scores_comparable (index db_abc) (float32s [1, 0, 0])
   \<and> HNSWIndex_Search (index db_abc) it_first (float32s [1, 0, 0]) 2 50
       = Some (Inr [\<lparr> Result_ID = ''a'', Score = Num (Fin 0) \<rparr>,
                    \<lparr> Result_ID = ''c'', Score = Num (Fin 1) \<rparr>])
   \<and> VectorDatabase_Search db_abc it_first (search_req [1, 0, 0] 3)
       = Some (Inr [\<lparr> Result_ID = ''a'', Score = Num (Fin 0) \<rparr>,
                    \<lparr> Result_ID = ''c'', Score = Num (Fin 1) \<rparr>,
                    \<lparr> Result_ID = ''b'', Score = Num (Fin 2) \<rparr>])
   \<and> sorted_wrt (\<le>) [Num (Fin 0), Num (Fin 1), Num (Fin 2)]"
proof -
  have c: "scores_comparable (index db_abc) (float32s [1, 0, 0])"
    by code_simp
  have i: "HNSWIndex_Search (index db_abc) it_first (float32s [1, 0, 0]) 2 50
       = Some (Inr [\<lparr> Result_ID = ''a'', Score = Num (Fin 0) \<rparr>,
                    \<lparr> Result_ID = ''c'', Score = Num (Fin 1) \<rparr>])"
    by code_simp
  have f: "VectorDatabase_Search db_abc it_first (search_req [1, 0, 0] 3)
       = Some (Inr [\<lparr> Result_ID = ''a'', Score = Num (Fin 0) \<rparr>,
                    \<lparr> Result_ID = ''c'', Score = Num (Fin 1) \<rparr>,
                    \<lparr> Result_ID = ''b'', Score = Num (Fin 2) \<rparr>])"
    by code_simp
  have q: "Query (search_req [1, 0, 0] 3) = float32s [1, 0, 0]"
    by (simp add: search_req_def)
  from Search_at_most_k_sorted [of db_abc it_first "float32s [1, 0, 0]" 2 50
         "[\<lparr> Result_ID = ''a'', Score = Num (Fin 0) \<rparr>, \<lparr> Result_ID = ''c'', Score = Num (Fin 1) \<rparr>]"
         "search_req [1, 0, 0] 3"
         "[\<lparr> Result_ID = ''a'', Score = Num (Fin 0) \<rparr>, \<lparr> Result_ID = ''c'', Score = Num (Fin 1) \<rparr>,
           \<lparr> Result_ID = ''b'', Score = Num (Fin 2) \<rparr>]"] c i f q reachable_db_abc
  show ?thesis by simp
qed

end
